theory Spec2Isabelle
  imports Complex_Main
begin

section \<open>The statement splitter of \<open>scripts/run_queries.py\<close>\<close>

subsection \<open>Text, characters and the string primitives the scanner uses\<close>

text \<open>
  A Python \<open>str\<close> is a sequence of Unicode code points.  A character is modelled by its
  code point (a natural number) and a text by the list of its code points, so that
  \<open>len\<close>, indexing and slicing count what Python counts.  The function \<open>U\<close> writes an
  ASCII literal as such a text.
\<close>

type_synonym uchar = nat
type_synonym pystr = "uchar list"

definition U :: "string \<Rightarrow> pystr" where
  "U s = map of_char s"

abbreviation NL :: uchar where "NL \<equiv> 10"
abbreviation SPACE :: uchar where "SPACE \<equiv> 32"
abbreviation DQ :: uchar where "DQ \<equiv> 34"
abbreviation DOLLAR :: uchar where "DOLLAR \<equiv> 36"
abbreviation SQ :: uchar where "SQ \<equiv> 39"
abbreviation STAR :: uchar where "STAR \<equiv> 42"
abbreviation DASH :: uchar where "DASH \<equiv> 45"
abbreviation SLASH :: uchar where "SLASH \<equiv> 47"
abbreviation SEMI :: uchar where "SEMI \<equiv> 59"

text \<open>
  \<open>str.isspace\<close> and \<open>str.strip\<close> share one table of white space (CPython's
  \<open>_PyUnicode_IsWhitespace\<close>): U+0009..U+000D, U+001C..U+0020, U+0085, U+00A0, U+1680,
  U+2000..U+200A, U+2028, U+2029, U+202F, U+205F and U+3000.
\<close>

definition py_isspace :: "uchar \<Rightarrow> bool" where
  "py_isspace c =
     ((9 \<le> c \<and> c \<le> 13) \<or> (28 \<le> c \<and> c \<le> 32) \<or> c = 133 \<or> c = 160 \<or> c = 5760 \<or>
      (8192 \<le> c \<and> c \<le> 8202) \<or> c = 8232 \<or> c = 8233 \<or> c = 8239 \<or> c = 8287 \<or>
      c = 12288)"

text \<open>\<open>s.isspace()\<close>: the string is not empty and all its characters are white space.\<close>

definition str_isspace :: "pystr \<Rightarrow> bool" where
  "str_isspace s = (s \<noteq> [] \<and> list_all py_isspace s)"

text \<open>\<open>s.strip()\<close>: white space removed at both ends.\<close>

definition py_strip :: "pystr \<Rightarrow> pystr" where
  "py_strip s = rev (dropWhile py_isspace (rev (dropWhile py_isspace s)))"

text \<open>The character class \<open>[A-Za-z0-9_]\<close> of the dollar-tag pattern.\<close>

definition is_tag_char :: "uchar \<Rightarrow> bool" where
  "is_tag_char c =
     ((65 \<le> c \<and> c \<le> 90) \<or> (97 \<le> c \<and> c \<le> 122) \<or> (48 \<le> c \<and> c \<le> 57) \<or> c = 95)"

text \<open>
  \<open>dollar_re.match(text[i:])\<close> for the pattern \<open>\$[A-Za-z0-9_]*\$\<close>: the match is anchored
  at the start of the slice; the star is greedy, and since \<open>$\<close> is not in the class the
  only candidate is the longest run of class characters, which must be followed by \<open>$\<close>.
  The result is \<open>match.group(0)\<close>, or \<open>None\<close> when there is no match.
\<close>

definition dollar_match :: "pystr \<Rightarrow> pystr option" where
  "dollar_match s =
     (case s of
        [] \<Rightarrow> None
      | c # r \<Rightarrow>
          if c = DOLLAR then
            (case dropWhile is_tag_char r of
               [] \<Rightarrow> None
             | d # _ \<Rightarrow>
                 if d = DOLLAR then Some (DOLLAR # takeWhile is_tag_char r @ [DOLLAR])
                 else None)
          else None)"

text \<open>\<open>text.startswith(tag, i)\<close>, on the slice \<open>text[i:]\<close>.\<close>

definition startswith :: "pystr \<Rightarrow> pystr \<Rightarrow> bool" where
  "startswith s tag = (take (length tag) s = tag)"

subsection \<open>The scanner state and one iteration of the loop\<close>

text \<open>
  The local variables of \<open>_split_sql_statements\<close>.  \<open>buf\<close> is a list of string pieces, as in
  the source: most pieces are single characters, a dollar tag is appended as one piece.
  The index \<open>i\<close> is represented by the slice \<open>text[i:]\<close> that remains to be read.
\<close>

record scan_state =
  statements :: "pystr list"
  buf :: "pystr list"
  in_single :: bool
  in_double :: bool
  in_line_comment :: bool
  in_block_comment :: bool
  in_dollar :: "pystr option"

definition init_state :: scan_state where
  "init_state = \<lparr>statements = [], buf = [], in_single = False, in_double = False,
     in_line_comment = False, in_block_comment = False, in_dollar = None\<rparr>"

text \<open>\<open>if buf and not buf[-1].isspace(): buf.append(" ")\<close>\<close>

definition pad_space :: "scan_state \<Rightarrow> scan_state" where
  "pad_space st =
     (if buf st \<noteq> [] \<and> \<not> str_isspace (last (buf st))
      then st\<lparr>buf := buf st @ [[SPACE]]\<rparr> else st)"

text \<open>
  The body of \<open>if ch == ";"\<close>: the buffer is joined and stripped, appended to the
  statements when it is not empty, and the buffer is reset.
\<close>

definition flush :: "scan_state \<Rightarrow> scan_state" where
  "flush st =
     (let statement = py_strip (concat (buf st)) in
      (if statement \<noteq> [] then st\<lparr>statements := statements st @ [statement]\<rparr> else st)
        \<lparr>buf := []\<rparr>)"

text \<open>
  One iteration of the \<open>while\<close> loop at \<open>text[i:] = ch # rest\<close>.  The result is the amount
  by which \<open>i\<close> advances and the state after the iteration.  The branches are those of
  the source, in its order.
\<close>

definition step :: "uchar \<Rightarrow> pystr \<Rightarrow> scan_state \<Rightarrow> nat \<times> scan_state" where
  "step ch rest st =
     (let nxt = (case rest of [] \<Rightarrow> None | c # _ \<Rightarrow> Some c) in
      if in_line_comment st then
        (1, if ch = NL then st\<lparr>in_line_comment := False\<rparr> else st)
      else if in_block_comment st then
        (if ch = STAR \<and> nxt = Some SLASH then (2, st\<lparr>in_block_comment := False\<rparr>)
         else (1, st))
      else
        (case in_dollar st of
           Some tag \<Rightarrow>
             if startswith (ch # rest) tag
             then (length tag, st\<lparr>buf := buf st @ [tag], in_dollar := None\<rparr>)
             else (1, st\<lparr>buf := buf st @ [[ch]]\<rparr>)
         | None \<Rightarrow>
             if \<not> in_single st \<and> \<not> in_double st \<and> ch = DASH \<and> nxt = Some DASH then
               (2, (pad_space st)\<lparr>in_line_comment := True\<rparr>)
             else if \<not> in_single st \<and> \<not> in_double st \<and> ch = SLASH \<and> nxt = Some STAR then
               (2, (pad_space st)\<lparr>in_block_comment := True\<rparr>)
             else
               (case (if \<not> in_single st \<and> \<not> in_double st \<and> ch = DOLLAR
                      then dollar_match (ch # rest) else None) of
                  Some tag \<Rightarrow> (length tag, st\<lparr>buf := buf st @ [tag], in_dollar := Some tag\<rparr>)
                | None \<Rightarrow>
                    if in_single st then
                      (if ch = SQ \<and> nxt = Some SQ then (2, st\<lparr>buf := buf st @ [[ch], [SQ]]\<rparr>)
                       else if ch = SQ
                         then (1, st\<lparr>in_single := False, buf := buf st @ [[ch]]\<rparr>)
                       else (1, st\<lparr>buf := buf st @ [[ch]]\<rparr>))
                    else if in_double st then
                      (if ch = DQ \<and> nxt = Some DQ then (2, st\<lparr>buf := buf st @ [[ch], [DQ]]\<rparr>)
                       else if ch = DQ
                         then (1, st\<lparr>in_double := False, buf := buf st @ [[ch]]\<rparr>)
                       else (1, st\<lparr>buf := buf st @ [[ch]]\<rparr>))
                    else if ch = SQ then (1, st\<lparr>in_single := True, buf := buf st @ [[ch]]\<rparr>)
                    else if ch = DQ then (1, st\<lparr>in_double := True, buf := buf st @ [[ch]]\<rparr>)
                    else if ch = SEMI then (1, flush st)
                    else (1, st\<lparr>buf := buf st @ [[ch]]\<rparr>))))"

text \<open>
  Every iteration advances \<open>i\<close>, except the one that closes a dollar region whose tag is
  the empty string (a tag the scanner itself never produces); that iteration leaves
  dollar mode.  So the loop terminates from every state.
\<close>

lemma dollar_match_length: "dollar_match s = Some tag \<Longrightarrow> 2 \<le> length tag"
  by (auto simp: dollar_match_def split: list.splits if_splits)

lemma step_decreases:
  assumes "step ch rest st = (k, st')"
  shows "2 * length (drop k (ch # rest)) + (if in_dollar st' = None then 0 else 1)
           < 2 * length (ch # rest) + (if in_dollar st = None then 0 else (1::nat))"
proof (cases "in_line_comment st \<or> in_block_comment st")
  case True
  with assms show ?thesis
    by (auto simp: step_def Let_def split: if_splits)
next
  case False
  note nc = this
  show ?thesis
  proof (cases "in_dollar st")
    case (Some tag)
    with nc assms show ?thesis
      by (cases tag) (auto simp: step_def Let_def startswith_def split: if_splits)
  next
    case None
    with nc assms show ?thesis
      by (auto simp: step_def pad_space_def flush_def Let_def
          dest: dollar_match_length split: if_splits option.splits)
  qed
qed

text \<open>The \<open>while i < n\<close> loop.\<close>

function scan :: "pystr \<Rightarrow> scan_state \<Rightarrow> scan_state" where
  "scan [] st = st"
| "scan (ch # rest) st = (case step ch rest st of (k, st') \<Rightarrow> scan (drop k (ch # rest)) st')"
  by pat_completeness auto
termination
  apply (relation "measure (\<lambda>(t, st). 2 * length t + (if in_dollar st = None then 0 else 1))")
   apply simp
  subgoal for ch rest st k st'
    using step_decreases [of ch rest st k st'] by simp
  done

text \<open>The code after the loop: the remainder of the buffer is the last statement.\<close>

definition finish :: "scan_state \<Rightarrow> pystr list" where
  "finish st =
     (let tail = py_strip (concat (buf st)) in
      if tail \<noteq> [] then statements st @ [tail] else statements st)"

definition split_sql_statements :: "pystr \<Rightarrow> pystr list" where
  "split_sql_statements text = finish (scan text init_state)"

text \<open>
  Normal lexical mode: the scanner is in no quoted literal, no comment and no dollar
  region.
\<close>

definition normal :: "scan_state \<Rightarrow> bool" where
  "normal st = (\<not> in_line_comment st \<and> \<not> in_block_comment st \<and> in_dollar st = None
      \<and> \<not> in_single st \<and> \<not> in_double st)"

section \<open>Properties of the statement splitter\<close>

subsection \<open>Stripping\<close>

lemma dropWhile_id: "xs = [] \<or> \<not> P (hd xs) \<Longrightarrow> dropWhile P xs = xs"
  by (cases xs) auto

lemma py_strip_fix:
  assumes "s = [] \<or> (\<not> py_isspace (hd s) \<and> \<not> py_isspace (last s))"
  shows "py_strip s = s"
proof (cases "s = []")
  case True
  then show ?thesis by (simp add: py_strip_def)
next
  case False
  with assms have "dropWhile py_isspace s = s" "dropWhile py_isspace (rev s) = rev s"
    by (simp_all add: dropWhile_id hd_rev)
  then show ?thesis by (simp add: py_strip_def)
qed

lemma py_strip_ends:
  "py_strip s = [] \<or> (\<not> py_isspace (hd (py_strip s)) \<and> \<not> py_isspace (last (py_strip s)))"
proof (cases "py_strip s = []")
  case True
  then show ?thesis by simp
next
  case False
  define d where "d = dropWhile py_isspace s"
  define r where "r = dropWhile py_isspace (rev d)"
  have res: "py_strip s = rev r" by (simp add: py_strip_def d_def r_def)
  with False have r: "r \<noteq> []" by simp
  then have hr: "\<not> py_isspace (hd r)" unfolding r_def by (rule hd_dropWhile)
  from r have d: "d \<noteq> []" by (auto simp: r_def)
  then have hd: "\<not> py_isspace (hd d)" unfolding d_def by (rule hd_dropWhile)
  have "rev d = takeWhile py_isspace (rev d) @ r" by (simp add: r_def)
  then have "last (rev d) = last r" using r by (metis last_appendR)
  then have "last r = hd d" using d by (simp add: last_rev)
  with hd hr r show ?thesis by (simp add: res hd_rev last_rev)
qed

lemma py_strip_idem: "py_strip (py_strip s) = py_strip s"
  using py_strip_ends [of s] by (rule py_strip_fix)

subsection \<open>Statements are appended only by the semicolon branch\<close>

lemma step_statements:
  "statements (snd (step ch rest st)) =
     (if normal st \<and> ch = SEMI then statements (flush st) else statements st)"
  by (simp add: step_def normal_def pad_space_def Let_def split: option.splits)

definition stmts_ok :: "pystr list \<Rightarrow> bool" where
  "stmts_ok ss = list_all (\<lambda>s. s \<noteq> [] \<and> py_strip s = s) ss"

lemma stmts_ok_flush: "stmts_ok (statements st) \<Longrightarrow> stmts_ok (statements (flush st))"
  by (simp add: flush_def stmts_ok_def Let_def py_strip_idem)

lemma stmts_ok_step:
  "stmts_ok (statements st) \<Longrightarrow> stmts_ok (statements (snd (step ch rest st)))"
  by (simp add: step_statements stmts_ok_flush)

lemma stmts_ok_scan: "stmts_ok (statements st) \<Longrightarrow> stmts_ok (statements (scan t st))"
proof (induction t st rule: scan.induct)
  case (1 st)
  then show ?case by simp
next
  case (2 ch rest st)
  obtain k st' where s: "step ch rest st = (k, st')" by (cases "step ch rest st")
  with stmts_ok_step [OF "2.prems", of ch rest] have "stmts_ok (statements st')" by simp
  with 2 s show ?case by simp
qed

text \<open>
  Claim C7.  For every input text, every statement that \<open>_split_sql_statements\<close> returns
  is non-empty and equals its own \<open>strip()\<close>: a fragment that is empty or only white
  space after stripping is never emitted.
\<close>

theorem split_statements_trimmed_nonempty:
  "list_all (\<lambda>s. s \<noteq> [] \<and> py_strip s = s) (split_sql_statements text)"
proof -
  have "stmts_ok (statements (scan text init_state))"
    by (rule stmts_ok_scan) (simp add: stmts_ok_def init_state_def)
  then show ?thesis
    by (simp add: split_sql_statements_def finish_def Let_def stmts_ok_def py_strip_idem)
qed

subsection \<open>Comments\<close>

lemma step_line_comment:
  "in_line_comment st \<Longrightarrow>
     step ch rest st = (1, if ch = NL then st\<lparr>in_line_comment := False\<rparr> else st)"
  by (simp add: step_def)

lemma step_block_comment:
  "\<not> in_line_comment st \<Longrightarrow> in_block_comment st \<Longrightarrow>
     step ch rest st =
       (if ch = STAR \<and> rest \<noteq> [] \<and> hd rest = SLASH then (2, st\<lparr>in_block_comment := False\<rparr>)
        else (1, st))"
  by (cases rest) (simp_all add: step_def)

lemma step_open_line:
  "normal st \<Longrightarrow> step DASH (DASH # rest) st = (2, (pad_space st)\<lparr>in_line_comment := True\<rparr>)"
  by (simp add: step_def normal_def)

lemma step_open_block:
  "normal st \<Longrightarrow> step SLASH (STAR # rest) st = (2, (pad_space st)\<lparr>in_block_comment := True\<rparr>)"
  by (simp add: step_def normal_def)

lemma scan_line_comment_nl:
  "in_line_comment st \<Longrightarrow> NL \<notin> set body \<Longrightarrow>
     scan (body @ NL # rest) st = scan rest (st\<lparr>in_line_comment := False\<rparr>)"
  by (induction body) (simp_all add: step_line_comment)

lemma scan_line_comment_eof:
  "in_line_comment st \<Longrightarrow> NL \<notin> set body \<Longrightarrow> scan body st = st"
  by (induction body) (simp_all add: step_line_comment)

text \<open>
  A comment body that does not contain the closing marker \<open>*/\<close> (the body may end with
  \<open>*\<close>: the marker that follows then starts with another \<open>*\<close>).
\<close>

fun no_close :: "pystr \<Rightarrow> bool" where
  "no_close (c # d # r) = (\<not> (c = STAR \<and> d = SLASH) \<and> no_close (d # r))"
| "no_close _ = True"

lemma scan_block_comment_close:
  "\<not> in_line_comment st \<Longrightarrow> in_block_comment st \<Longrightarrow> no_close body \<Longrightarrow>
     scan (body @ STAR # SLASH # rest) st = scan rest (st\<lparr>in_block_comment := False\<rparr>)"
proof (induction body)
  case Nil
  then show ?case by (simp add: step_block_comment)
next
  case (Cons c body)
  then show ?case by (cases body) (auto simp: step_block_comment)
qed

lemma scan_block_comment_eof:
  "\<not> in_line_comment st \<Longrightarrow> in_block_comment st \<Longrightarrow> no_close body \<Longrightarrow> scan body st = st"
proof (induction body)
  case Nil
  then show ?case by simp
next
  case (Cons c body)
  then show ?case by (cases body) (auto simp: step_block_comment)
qed

lemma pad_space_fields [simp]:
  "statements (pad_space st) = statements st"
  "in_single (pad_space st) = in_single st"
  "in_double (pad_space st) = in_double st"
  "in_line_comment (pad_space st) = in_line_comment st"
  "in_block_comment (pad_space st) = in_block_comment st"
  "in_dollar (pad_space st) = in_dollar st"
  by (simp_all add: pad_space_def)

text \<open>
  Claim C9.  When the scanner, in Normal mode, meets a comment, the whole comment (the
  \<open>--\<close> marker, the body and the terminating newline; the \<open>/*\<close> marker, the body and
  \<open>*/\<close>) is consumed without being buffered: scanning continues behind the comment
  from the state in which only \<open>pad_space\<close> has run, and a comment that runs to the end
  of the input yields the statements of that state.  \<open>pad_space\<close> appends exactly one
  space, and only when the buffer is not empty and its last piece is not white space.
  So no character of a comment reaches an emitted statement.
\<close>

theorem comments_leave_at_most_one_space:
  assumes "normal st"
  shows "(NL \<notin> set body \<longrightarrow>
            scan (DASH # DASH # body @ NL # rest) st = scan rest (pad_space st)
          \<and> finish (scan (DASH # DASH # body) st) = finish (pad_space st))
       \<and> (no_close body \<longrightarrow>
            scan (SLASH # STAR # body @ STAR # SLASH # rest) st = scan rest (pad_space st)
          \<and> finish (scan (SLASH # STAR # body) st) = finish (pad_space st))
       \<and> (buf (pad_space st) =
            (if buf st \<noteq> [] \<and> \<not> str_isspace (last (buf st)) then buf st @ [[SPACE]]
             else buf st))"
proof (intro conjI impI)
  assume nl: "NL \<notin> set body"
  have r: "(pad_space st)\<lparr>in_line_comment := True, in_line_comment := False\<rparr> = pad_space st"
    using assms by (simp add: normal_def)
  show "scan (DASH # DASH # body @ NL # rest) st = scan rest (pad_space st)"
    using assms nl by (simp add: step_open_line scan_line_comment_nl r)
  show "finish (scan (DASH # DASH # body) st) = finish (pad_space st)"
    using assms nl by (simp add: step_open_line scan_line_comment_eof finish_def Let_def)
next
  assume nc: "no_close body"
  have r: "(pad_space st)\<lparr>in_block_comment := True, in_block_comment := False\<rparr> = pad_space st"
    using assms by (simp add: normal_def)
  have l: "\<not> in_line_comment ((pad_space st)\<lparr>in_block_comment := True\<rparr>)"
    using assms by (simp add: normal_def)
  show "scan (SLASH # STAR # body @ STAR # SLASH # rest) st = scan rest (pad_space st)"
    using assms nc l by (simp add: step_open_block scan_block_comment_close r)
  show "finish (scan (SLASH # STAR # body) st) = finish (pad_space st)"
    using assms nc l by (simp add: step_open_block scan_block_comment_eof finish_def Let_def)
next
  show "buf (pad_space st) =
          (if buf st \<noteq> [] \<and> \<not> str_isspace (last (buf st)) then buf st @ [[SPACE]] else buf st)"
    by (simp add: pad_space_def)
qed

theorem comments_leave_at_most_one_space_witness:
  "normal (init_state\<lparr>buf := [U ''a'']\<rparr>) \<and> NL \<notin> set (U ''x;y'') \<and> no_close (U ''x;*y'')
   \<and> scan (DASH # DASH # U ''x;y'' @ NL # U ''b'') (init_state\<lparr>buf := [U ''a'']\<rparr>)
       = init_state\<lparr>buf := [U ''a'', U '' '', U ''b'']\<rparr>
   \<and> scan (SLASH # STAR # U ''x;*y'' @ STAR # SLASH # U ''b'') (init_state\<lparr>buf := [U ''a'']\<rparr>)
       = init_state\<lparr>buf := [U ''a'', U '' '', U ''b'']\<rparr>
   \<and> finish (scan (DASH # DASH # U ''x;y'') (init_state\<lparr>buf := [U ''a'']\<rparr>)) = [U ''a'']"
  using comments_leave_at_most_one_space
    [of "init_state\<lparr>buf := [U ''a'']\<rparr>" "U ''x;y''" "U ''b''"]
    comments_leave_at_most_one_space
    [of "init_state\<lparr>buf := [U ''a'']\<rparr>" "U ''x;*y''" "U ''b''"]
  by (simp add: normal_def init_state_def U_def pad_space_def str_isspace_def py_isspace_def
      step_def finish_def py_strip_def)

subsection \<open>Reading a text in two parts\<close>

text \<open>
  A character is inert when no branch of the scanner looks ahead for it: it is none of
  the quote, comment and dollar characters and no tag character.  White space and the
  semicolon are inert.
\<close>

definition inert :: "uchar \<Rightarrow> bool" where
  "inert c = (c \<noteq> SQ \<and> c \<noteq> DQ \<and> c \<noteq> DASH \<and> c \<noteq> STAR \<and> c \<noteq> SLASH \<and> c \<noteq> DOLLAR
      \<and> \<not> is_tag_char c)"

definition inert_start :: "pystr \<Rightarrow> bool" where
  "inert_start x = (case x of [] \<Rightarrow> True | c # _ \<Rightarrow> inert c)"

text \<open>The tag of an open dollar region is one that the pattern matched.\<close>

definition tag_ok :: "scan_state \<Rightarrow> bool" where
  "tag_ok st = (case in_dollar st of None \<Rightarrow> True | Some tag \<Rightarrow> dollar_match tag = Some tag)"

lemma inert_simps [simp]: "inert SEMI" "\<not> inert SQ" "\<not> inert DQ" "\<not> inert DASH" "\<not> inert STAR"
  "\<not> inert SLASH" "\<not> inert DOLLAR"
  by (simp_all add: inert_def is_tag_char_def)

lemma isspace_inert: "py_isspace c \<Longrightarrow> inert c"
  by (auto simp: py_isspace_def inert_def is_tag_char_def)

lemma dollar_matchE:
  assumes "dollar_match s = Some tag"
  obtains r x where "s = DOLLAR # r" "dropWhile is_tag_char r = DOLLAR # x"
    "tag = DOLLAR # takeWhile is_tag_char r @ [DOLLAR]"
proof (cases s)
  case Nil
  with assms show ?thesis by (simp add: dollar_match_def)
next
  case (Cons c r)
  show ?thesis
  proof (cases "dropWhile is_tag_char r")
    case Nil
    with assms Cons show ?thesis
      by (simp add: dollar_match_def del: dropWhile_eq_Nil_conv split: if_splits)
  next
    case (Cons d x)
    with assms \<open>s = c # r\<close> have "c = DOLLAR" "d = DOLLAR"
      "tag = DOLLAR # takeWhile is_tag_char r @ [DOLLAR]"
      by (simp_all add: dollar_match_def split: if_splits)
    with Cons \<open>s = c # r\<close> that show ?thesis by simp
  qed
qed

lemma dollar_match_prefix:
  assumes "dollar_match s = Some tag"
  shows "\<exists>x. s = tag @ x"
proof -
  from assms obtain r x where s: "s = DOLLAR # r" and d: "dropWhile is_tag_char r = DOLLAR # x"
    and t: "tag = DOLLAR # takeWhile is_tag_char r @ [DOLLAR]"
    by (rule dollar_matchE)
  have "r = takeWhile is_tag_char r @ dropWhile is_tag_char r" by simp
  with d have "r = takeWhile is_tag_char r @ DOLLAR # x" by simp
  then have "s = tag @ x" using s t by simp
  then show ?thesis ..
qed

lemma not_tag_DOLLAR [simp]: "\<not> is_tag_char DOLLAR"
  by (simp add: is_tag_char_def)

lemma dollar_match_shape:
  assumes "dollar_match s = Some tag"
  shows "\<exists>run. tag = DOLLAR # run @ [DOLLAR] \<and> list_all is_tag_char run"
proof -
  from assms obtain r where "tag = DOLLAR # takeWhile is_tag_char r @ [DOLLAR]"
    by (rule dollar_matchE)
  moreover have "list_all is_tag_char (takeWhile is_tag_char r)"
    by (simp add: list_all_iff) (meson set_takeWhileD)
  ultimately show ?thesis by blast
qed

lemma dollar_match_run:
  "list_all is_tag_char run \<Longrightarrow> dollar_match (DOLLAR # run @ DOLLAR # x) = Some (DOLLAR # run @ [DOLLAR])"
  by (simp add: dollar_match_def list_all_iff)

lemma dollar_match_idem: "dollar_match s = Some tag \<Longrightarrow> dollar_match tag = Some tag"
  using dollar_match_run [of _ "[]"] by (auto dest!: dollar_match_shape)

lemma dollar_match_tag_append: "dollar_match s = Some tag \<Longrightarrow> dollar_match (tag @ x) = Some tag"
  using dollar_match_run by (auto dest!: dollar_match_shape)

lemma tag_chars:
  "dollar_match tag = Some tag \<Longrightarrow> c \<in> set tag \<Longrightarrow> c = DOLLAR \<or> is_tag_char c"
  by (auto dest!: dollar_match_shape simp: list_all_iff)

lemma tag_not_inert: "dollar_match tag = Some tag \<Longrightarrow> c \<in> set tag \<Longrightarrow> \<not> inert c"
  by (auto dest: tag_chars simp: inert_def)

lemma dollar_match_append:
  assumes "inert_start x"
  shows "dollar_match (s @ x) = dollar_match s"
proof (cases s)
  case Nil
  with assms show ?thesis
    by (cases x) (auto simp: dollar_match_def inert_start_def)
next
  case (Cons c r)
  have dx: "dropWhile is_tag_char x = x"
    using assms by (cases x) (auto simp: inert_start_def inert_def)
  have nx: "(case x of [] \<Rightarrow> None | d # _ \<Rightarrow> if d = DOLLAR then Some (DOLLAR # t) else None) = None" for t
    using assms by (cases x) (auto simp: inert_start_def)
  show ?thesis
  proof (cases "list_all is_tag_char r")
    case True
    then have "dropWhile is_tag_char (r @ x) = x" "dropWhile is_tag_char r = []"
      using dx by (simp_all add: list_all_iff)
    then show ?thesis
      using Cons nx by (simp add: dollar_match_def del: dropWhile_eq_Nil_conv)
  next
    case False
    then obtain y where y: "y \<in> set r" "\<not> is_tag_char y" by (auto simp: list_all_iff)
    then have "dropWhile is_tag_char (r @ x) = dropWhile is_tag_char r @ x"
      "takeWhile is_tag_char (r @ x) = takeWhile is_tag_char r"
      by simp_all
    moreover have "dropWhile is_tag_char r \<noteq> []" using y by auto
    ultimately show ?thesis
      using Cons by (auto simp: dollar_match_def split: list.splits)
  qed
qed

lemma startswith_append:
  assumes "inert_start x" and "dollar_match tag = Some tag"
  shows "startswith (s @ x) tag = startswith s tag"
proof (cases "length tag \<le> length s")
  case True
  then show ?thesis by (simp add: startswith_def)
next
  case False
  then have ns: "\<not> startswith s tag" by (auto simp: startswith_def)
  have "\<not> startswith (s @ x) tag"
  proof
    assume a: "startswith (s @ x) tag"
    with False have t: "tag = s @ take (length tag - length s) x"
      by (simp add: startswith_def)
    with False have "x \<noteq> []" by auto
    then obtain c y where x: "x = c # y" by (cases x) auto
    with assms(1) have "inert c" by (simp add: inert_start_def)
    moreover have "take (length tag - length s) x = c # take (length tag - length s - 1) y"
      using False x by (cases "length tag - length s") simp_all
    with t have "c \<in> set tag" by (metis in_set_conv_decomp)
    ultimately show False using tag_not_inert [OF assms(2)] by blast
  qed
  with ns show ?thesis by simp
qed

definition opens_line :: "uchar \<Rightarrow> pystr \<Rightarrow> bool" where
  "opens_line ch rest = (ch = DASH \<and> rest \<noteq> [] \<and> hd rest = DASH)"

definition opens_block :: "uchar \<Rightarrow> pystr \<Rightarrow> bool" where
  "opens_block ch rest = (ch = SLASH \<and> rest \<noteq> [] \<and> hd rest = STAR)"

lemma nxt_eq: "((case rest of [] \<Rightarrow> None | c # _ \<Rightarrow> Some c) = Some d) = (rest \<noteq> [] \<and> hd rest = d)"
  by (cases rest) auto

lemma step_normal_line:
  "normal st \<Longrightarrow> opens_line ch rest \<Longrightarrow>
     step ch rest st = (2, (pad_space st)\<lparr>in_line_comment := True\<rparr>)"
  by (simp add: step_def normal_def opens_line_def nxt_eq Let_def)

lemma step_normal_block:
  "normal st \<Longrightarrow> opens_block ch rest \<Longrightarrow>
     step ch rest st = (2, (pad_space st)\<lparr>in_block_comment := True\<rparr>)"
  by (simp add: step_def normal_def opens_block_def nxt_eq Let_def)

lemma step_normal_dollar:
  "normal st \<Longrightarrow> dollar_match (DOLLAR # rest) = Some tag \<Longrightarrow>
     step DOLLAR rest st = (length tag, st\<lparr>buf := buf st @ [tag], in_dollar := Some tag\<rparr>)"
  by (simp add: step_def normal_def Let_def)

lemma step_normal_other:
  "normal st \<Longrightarrow> \<not> opens_line ch rest \<Longrightarrow> \<not> opens_block ch rest \<Longrightarrow>
   dollar_match (ch # rest) = None \<Longrightarrow>
     step ch rest st =
       (1, if ch = SQ then st\<lparr>in_single := True, buf := buf st @ [[ch]]\<rparr>
           else if ch = DQ then st\<lparr>in_double := True, buf := buf st @ [[ch]]\<rparr>
           else if ch = SEMI then flush st
           else st\<lparr>buf := buf st @ [[ch]]\<rparr>)"
  by (auto simp: step_def normal_def opens_line_def opens_block_def nxt_eq Let_def)

lemma dollar_match_hd: "dollar_match (ch # rest) = Some tag \<Longrightarrow> ch = DOLLAR"
  by (simp add: dollar_match_def split: if_splits)

lemma normal_step_cases [case_names open_line open_block open_dollar other]:
  assumes "opens_line ch rest \<Longrightarrow> P"
    and "opens_block ch rest \<Longrightarrow> P"
    and "\<And>tag. ch = DOLLAR \<Longrightarrow> dollar_match (ch # rest) = Some tag \<Longrightarrow> P"
    and "\<not> opens_line ch rest \<Longrightarrow> \<not> opens_block ch rest \<Longrightarrow> dollar_match (ch # rest) = None \<Longrightarrow> P"
  shows P
proof (cases "dollar_match (ch # rest)")
  case None
  with assms(1,2,4) show ?thesis by blast
next
  case (Some tag)
  with assms(3) dollar_match_hd show ?thesis by blast
qed

lemma step_dollar:
  "\<not> in_line_comment st \<Longrightarrow> \<not> in_block_comment st \<Longrightarrow> in_dollar st = Some tag \<Longrightarrow>
     step ch rest st =
       (if startswith (ch # rest) tag
        then (length tag, st\<lparr>buf := buf st @ [tag], in_dollar := None\<rparr>)
        else (1, st\<lparr>buf := buf st @ [[ch]]\<rparr>))"
  by (simp add: step_def)

lemma step_single:
  "\<not> in_line_comment st \<Longrightarrow> \<not> in_block_comment st \<Longrightarrow> in_dollar st = None \<Longrightarrow>
   in_single st \<Longrightarrow>
     step ch rest st =
       (if ch = SQ \<and> rest \<noteq> [] \<and> hd rest = SQ then (2, st\<lparr>buf := buf st @ [[SQ], [SQ]]\<rparr>)
        else if ch = SQ then (1, st\<lparr>in_single := False, buf := buf st @ [[ch]]\<rparr>)
        else (1, st\<lparr>buf := buf st @ [[ch]]\<rparr>))"
  by (auto simp: step_def nxt_eq Let_def)

lemma step_double:
  "\<not> in_line_comment st \<Longrightarrow> \<not> in_block_comment st \<Longrightarrow> in_dollar st = None \<Longrightarrow>
   \<not> in_single st \<Longrightarrow> in_double st \<Longrightarrow>
     step ch rest st =
       (if ch = DQ \<and> rest \<noteq> [] \<and> hd rest = DQ then (2, st\<lparr>buf := buf st @ [[DQ], [DQ]]\<rparr>)
        else if ch = DQ then (1, st\<lparr>in_double := False, buf := buf st @ [[ch]]\<rparr>)
        else (1, st\<lparr>buf := buf st @ [[ch]]\<rparr>))"
  by (auto simp: step_def nxt_eq Let_def)

lemma mode_cases [case_names line block dollar single double normal]:
  assumes "in_line_comment st \<Longrightarrow> P"
    and "\<not> in_line_comment st \<Longrightarrow> in_block_comment st \<Longrightarrow> P"
    and "\<And>tag. \<not> in_line_comment st \<Longrightarrow> \<not> in_block_comment st \<Longrightarrow> in_dollar st = Some tag \<Longrightarrow> P"
    and "\<not> in_line_comment st \<Longrightarrow> \<not> in_block_comment st \<Longrightarrow> in_dollar st = None \<Longrightarrow>
           in_single st \<Longrightarrow> P"
    and "\<not> in_line_comment st \<Longrightarrow> \<not> in_block_comment st \<Longrightarrow> in_dollar st = None \<Longrightarrow>
           \<not> in_single st \<Longrightarrow> in_double st \<Longrightarrow> P"
    and "normal st \<Longrightarrow> P"
  shows P
proof (cases "in_dollar st")
  case None
  with assms(1,2,4,5,6) show ?thesis unfolding normal_def by blast
next
  case (Some tag)
  with assms(1,2,3) show ?thesis by blast
qed

lemma step_tag_ok:
  assumes "tag_ok st"
  shows "tag_ok (snd (step ch rest st))"
proof (cases st rule: mode_cases)
  case line
  with assms show ?thesis by (simp add: step_line_comment tag_ok_def)
next
  case block
  with assms show ?thesis by (simp add: step_block_comment tag_ok_def)
next
  case (dollar tag)
  with assms show ?thesis by (simp add: step_dollar tag_ok_def)
next
  case single
  with assms show ?thesis by (simp add: step_single tag_ok_def)
next
  case double
  with assms show ?thesis by (simp add: step_double tag_ok_def)
next
  case normal
  then have nd: "in_dollar st = None" by (simp add: normal_def)
  show ?thesis
  proof (cases ch rest rule: normal_step_cases)
    case open_line
    with normal nd show ?thesis by (simp add: step_normal_line tag_ok_def)
  next
    case open_block
    with normal nd show ?thesis by (simp add: step_normal_block tag_ok_def)
  next
    case (open_dollar tag)
    with normal show ?thesis
      by (simp add: step_normal_dollar tag_ok_def dollar_match_idem)
  next
    case other
    with normal nd show ?thesis by (simp add: step_normal_other tag_ok_def flush_def Let_def)
  qed
qed

lemma startswith_length:
  assumes "startswith s tag"
  shows "length tag \<le> length s"
proof -
  from assms have "length (take (length tag) s) = length tag"
    by (simp add: startswith_def)
  then show ?thesis by simp
qed

lemma dollar_match_le:
  assumes "dollar_match s = Some tag"
  shows "length tag \<le> length s"
proof -
  from dollar_match_prefix [OF assms] obtain x where "s = tag @ x" ..
  then have "length s = length tag + length x" by simp
  then show ?thesis by simp
qed

lemma step_le: "fst (step ch rest st) \<le> Suc (length rest)"
proof (cases st rule: mode_cases)
  case line
  then show ?thesis by (simp add: step_line_comment)
next
  case block
  then show ?thesis by (cases rest) (simp_all add: step_block_comment)
next
  case (dollar tag)
  then show ?thesis using startswith_length [of "ch # rest" tag] by (simp add: step_dollar)
next
  case single
  then show ?thesis by (cases rest) (simp_all add: step_single)
next
  case double
  then show ?thesis by (cases rest) (simp_all add: step_double)
next
  case normal
  show ?thesis
  proof (cases ch rest rule: normal_step_cases)
    case open_line
    with normal show ?thesis by (cases rest) (simp_all add: step_normal_line opens_line_def)
  next
    case open_block
    with normal show ?thesis by (cases rest) (simp_all add: step_normal_block opens_block_def)
  next
    case (open_dollar tag)
    from dollar_match_le [OF open_dollar(2)] have "length tag \<le> Suc (length rest)"
      by simp
    with normal open_dollar show ?thesis by (simp add: step_normal_dollar)
  next
    case other
    with normal show ?thesis by (simp add: step_normal_other)
  qed
qed

lemma hd_append_inert:
  "inert_start x \<Longrightarrow> \<not> inert c \<Longrightarrow>
     (rest @ x \<noteq> [] \<and> hd (rest @ x) = c) = (rest \<noteq> [] \<and> hd rest = c)"
  by (cases rest; cases x) (auto simp: inert_start_def)

lemma step_append:
  assumes "tag_ok st" "inert_start x"
  shows "step ch (rest @ x) st = step ch rest st"
proof (cases st rule: mode_cases)
  case line
  then show ?thesis by (simp add: step_line_comment)
next
  case block
  then show ?thesis
    using hd_append_inert [OF assms(2), of SLASH rest] by (simp add: step_block_comment)
next
  case (dollar tag)
  then show ?thesis
    using startswith_append [OF assms(2), of tag "ch # rest"] assms(1)
    by (simp add: step_dollar tag_ok_def)
next
  case single
  then show ?thesis
    using hd_append_inert [OF assms(2), of SQ rest] by (simp add: step_single)
next
  case double
  then show ?thesis
    using hd_append_inert [OF assms(2), of DQ rest] by (simp add: step_double)
next
  case normal
  have d: "dollar_match (ch # rest @ x) = dollar_match (ch # rest)"
    using dollar_match_append [OF assms(2), of "ch # rest"] by simp
  have l: "opens_line ch (rest @ x) = opens_line ch rest"
    using hd_append_inert [OF assms(2), of DASH rest] by (simp add: opens_line_def)
  have b: "opens_block ch (rest @ x) = opens_block ch rest"
    using hd_append_inert [OF assms(2), of STAR rest] by (simp add: opens_block_def)
  show ?thesis
  proof (cases ch rest rule: normal_step_cases)
    case open_line
    with normal l show ?thesis by (simp add: step_normal_line)
  next
    case open_block
    with normal b show ?thesis by (simp add: step_normal_block)
  next
    case (open_dollar tag)
    with normal d show ?thesis by (simp add: step_normal_dollar)
  next
    case other
    with normal d l b show ?thesis by (simp add: step_normal_other)
  qed
qed

lemma scan_append:
  "tag_ok st \<Longrightarrow> inert_start x \<Longrightarrow> scan (s @ x) st = scan x (scan s st)"
proof (induction s st rule: scan.induct)
  case (1 st)
  then show ?case by simp
next
  case (2 ch rest st)
  obtain k st' where st: "step ch rest st = (k, st')" by (cases "step ch rest st")
  then have k: "k \<le> Suc (length rest)" using step_le [of ch rest st] by simp
  from st have ok: "tag_ok st'" using step_tag_ok [OF "2.prems"(1), of ch rest] by simp
  have d: "drop k (ch # rest @ x) = drop k (ch # rest) @ x"
    using k drop_append [of k "ch # rest" x] by simp
  have "scan ((ch # rest) @ x) st = scan (drop k (ch # rest @ x)) st'"
    by (simp only: append_Cons scan.simps step_append [OF "2.prems"] st prod.case)
  also have "\<dots> = scan (drop k (ch # rest) @ x) st'"
    by (simp only: d)
  also have "\<dots> = scan x (scan (drop k (ch # rest)) st')"
    using "2.IH" [OF st [symmetric] ok "2.prems"(2)] .
  finally show ?case using st by simp
qed

subsection \<open>Only a Normal-mode semicolon splits\<close>

lemma take_buf_append: "take (length b) (b @ x) = b"
  by simp

lemma step_keeps_statement:
  assumes "\<not> (normal st \<and> ch = SEMI)"
  shows "take (length (buf st)) (buf (snd (step ch rest st))) = buf st"
proof (cases st rule: mode_cases)
  case line
  then show ?thesis by (simp add: step_line_comment)
next
  case block
  then show ?thesis by (simp add: step_block_comment)
next
  case (dollar tag)
  then show ?thesis by (simp add: step_dollar)
next
  case single
  then show ?thesis by (simp add: step_single)
next
  case double
  then show ?thesis by (simp add: step_double)
next
  case normal
  show ?thesis
  proof (cases ch rest rule: normal_step_cases)
    case open_line
    with normal show ?thesis by (simp add: step_normal_line pad_space_def)
  next
    case open_block
    with normal show ?thesis by (simp add: step_normal_block pad_space_def)
  next
    case (open_dollar tag)
    with normal show ?thesis by (simp add: step_normal_dollar)
  next
    case other
    with normal assms show ?thesis by (simp add: step_normal_other)
  qed
qed

lemma step_normal_semi: "normal st \<Longrightarrow> step SEMI rest st = (1, flush st)"
  by (simp add: step_normal_other opens_line_def opens_block_def dollar_match_def)

subsection \<open>The remainder at the end of the input\<close>

text \<open>Characters that the scanner, in Normal mode, appends to the buffer one by one.\<close>

definition plain :: "uchar \<Rightarrow> bool" where
  "plain c = (c \<noteq> SEMI \<and> c \<noteq> SQ \<and> c \<noteq> DQ \<and> c \<noteq> DASH \<and> c \<noteq> SLASH \<and> c \<noteq> DOLLAR)"

lemma normal_buf_update [simp]: "normal (st\<lparr>buf := b\<rparr>) = normal st"
  by (simp add: normal_def)

lemma step_plain:
  "normal st \<Longrightarrow> plain ch \<Longrightarrow> step ch rest st = (1, st\<lparr>buf := buf st @ [[ch]]\<rparr>)"
  by (simp add: step_normal_other opens_line_def opens_block_def dollar_match_def plain_def)

lemma scan_plain:
  "normal st \<Longrightarrow> list_all plain t \<Longrightarrow> scan t st = st\<lparr>buf := buf st @ map (\<lambda>c. [c]) t\<rparr>"
  by (induction t arbitrary: st) (simp_all add: step_plain)

lemma concat_singletons [simp]: "concat (map (\<lambda>c. [c]) t) = t"
  by (induction t) simp_all

lemma py_strip_Nil_iff: "py_strip s = [] \<longleftrightarrow> list_all py_isspace s"
proof
  assume "py_strip s = []"
  then have "dropWhile py_isspace (rev (dropWhile py_isspace s)) = []"
    by (simp add: py_strip_def)
  then have a: "\<forall>x\<in>set (dropWhile py_isspace s). py_isspace x"
    by (simp add: dropWhile_eq_Nil_conv)
  have "dropWhile py_isspace s = []"
  proof (rule ccontr)
    assume n: "dropWhile py_isspace s \<noteq> []"
    then have "\<not> py_isspace (hd (dropWhile py_isspace s))" by (rule hd_dropWhile)
    moreover from n have "hd (dropWhile py_isspace s) \<in> set (dropWhile py_isspace s)" by simp
    ultimately show False using a by blast
  qed
  then show "list_all py_isspace s" by (simp add: list_all_iff)
next
  assume "list_all py_isspace s"
  then have "dropWhile py_isspace s = []" by (simp add: list_all_iff)
  then show "py_strip s = []" by (simp add: py_strip_def del: dropWhile_eq_Nil_conv)
qed

lemma tag_ok_init [simp]: "tag_ok init_state"
  by (simp add: tag_ok_def init_state_def)

lemma scan_tag_ok: "tag_ok st \<Longrightarrow> tag_ok (scan t st)"
proof (induction t st rule: scan.induct)
  case (1 st)
  then show ?case by simp
next
  case (2 ch rest st)
  obtain k st' where s: "step ch rest st = (k, st')" by (cases "step ch rest st")
  with step_tag_ok [OF "2.prems", of ch rest] have "tag_ok st'" by simp
  with "2.IH" [OF s [symmetric]] s show ?case by simp
qed

lemma normal_flush [simp]: "normal (flush st) = normal st"
  by (simp add: flush_def normal_def Let_def)

lemma buf_flush [simp]: "buf (flush st) = []"
  by (simp add: flush_def Let_def)

subsection \<open>A remainder without comments is buffered as it is\<close>

text \<open>
  \<open>verbatim_run t st\<close>: reading \<open>t\<close> from the state \<open>st\<close>, the scanner is never inside a
  comment, opens no comment and meets no \<open>;\<close> in Normal mode.  It follows the loop
  iteration by iteration.
\<close>

function verbatim_run :: "pystr \<Rightarrow> scan_state \<Rightarrow> bool" where
  "verbatim_run [] st = True"
| "verbatim_run (ch # rest) st =
     (\<not> in_line_comment st \<and> \<not> in_block_comment st
      \<and> \<not> (normal st \<and> (ch = SEMI \<or> opens_line ch rest \<or> opens_block ch rest))
      \<and> (case step ch rest st of (k, st') \<Rightarrow> verbatim_run (drop k (ch # rest)) st'))"
  by pat_completeness auto
termination
  apply (relation "measure (\<lambda>(t, st). 2 * length t + (if in_dollar st = None then 0 else 1))")
   apply simp
  subgoal for ch rest st k st'
    using step_decreases [of ch rest st k st'] by simp
  done

definition same_mode :: "scan_state \<Rightarrow> scan_state \<Rightarrow> bool" where
  "same_mode st st' =
     (in_single st = in_single st' \<and> in_double st = in_double st'
      \<and> in_line_comment st = in_line_comment st' \<and> in_block_comment st = in_block_comment st'
      \<and> in_dollar st = in_dollar st')"

lemma same_mode_normal: "same_mode st st' \<Longrightarrow> normal st = normal st'"
  by (auto simp: same_mode_def normal_def)

lemma flush_fields [simp]:
  "in_single (flush st) = in_single st"
  "in_double (flush st) = in_double st"
  "in_line_comment (flush st) = in_line_comment st"
  "in_block_comment (flush st) = in_block_comment st"
  "in_dollar (flush st) = in_dollar st"
  by (simp_all add: flush_def Let_def)

lemma step_same_mode:
  assumes "same_mode st st'"
  shows "fst (step ch rest st) = fst (step ch rest st')
       \<and> same_mode (snd (step ch rest st)) (snd (step ch rest st'))"
proof (cases st rule: mode_cases)
  case line
  with assms have "in_line_comment st'" by (simp add: same_mode_def)
  with line assms show ?thesis by (simp add: step_line_comment same_mode_def)
next
  case block
  with assms have "\<not> in_line_comment st'" "in_block_comment st'" by (simp_all add: same_mode_def)
  with block assms show ?thesis by (simp add: step_block_comment same_mode_def)
next
  case (dollar tag)
  with assms have "\<not> in_line_comment st'" "\<not> in_block_comment st'" "in_dollar st' = Some tag"
    by (simp_all add: same_mode_def)
  with dollar assms show ?thesis by (simp add: step_dollar same_mode_def)
next
  case single
  with assms have "\<not> in_line_comment st'" "\<not> in_block_comment st'" "in_dollar st' = None"
    "in_single st'"
    by (simp_all add: same_mode_def)
  with single assms show ?thesis by (simp add: step_single same_mode_def)
next
  case double
  with assms have "\<not> in_line_comment st'" "\<not> in_block_comment st'" "in_dollar st' = None"
    "\<not> in_single st'" "in_double st'"
    by (simp_all add: same_mode_def)
  with double assms show ?thesis by (simp add: step_double same_mode_def)
next
  case normal
  with assms have n': "normal st'" by (simp add: same_mode_normal)
  show ?thesis
  proof (cases ch rest rule: normal_step_cases)
    case open_line
    with normal n' assms show ?thesis by (simp add: step_normal_line same_mode_def)
  next
    case open_block
    with normal n' assms show ?thesis by (simp add: step_normal_block same_mode_def)
  next
    case (open_dollar tag)
    with normal n' assms show ?thesis by (simp add: step_normal_dollar same_mode_def)
  next
    case other
    with normal n' assms show ?thesis by (simp add: step_normal_other same_mode_def)
  qed
qed

lemma verbatim_run_same_mode:
  "same_mode st st' \<Longrightarrow> verbatim_run t st = verbatim_run t st'"
proof (induction t st arbitrary: st' rule: verbatim_run.induct)
  case (1 st)
  then show ?case by simp
next
  case (2 ch rest st)
  obtain k s1 where s: "step ch rest st = (k, s1)" by (cases "step ch rest st")
  obtain k' s1' where s': "step ch rest st' = (k', s1')" by (cases "step ch rest st'")
  from step_same_mode [OF "2.prems", of ch rest] s s' have e: "k' = k" "same_mode s1 s1'"
    by simp_all
  have "verbatim_run (drop k (ch # rest)) s1 = verbatim_run (drop k (ch # rest)) s1'"
    using "2.IH" [OF s [symmetric] e(2)] .
  with s s' e(1) "2.prems" same_mode_normal [OF "2.prems"] show ?case
    by (simp add: same_mode_def)
qed

lemma step_verbatim:
  assumes "\<not> in_line_comment st" "\<not> in_block_comment st"
    and "\<not> (normal st \<and> (ch = SEMI \<or> opens_line ch rest \<or> opens_block ch rest))"
    and "step ch rest st = (k, st')"
  shows "concat (buf st') = concat (buf st) @ take k (ch # rest)
       \<and> statements st' = statements st
       \<and> \<not> in_line_comment st' \<and> \<not> in_block_comment st'"
proof (cases st rule: mode_cases)
  case line
  with assms show ?thesis by simp
next
  case block
  with assms show ?thesis by simp
next
  case (dollar tag)
  with assms(4) show ?thesis
    by (auto simp: step_dollar startswith_def split: if_splits)
next
  case single
  with assms(4) show ?thesis
    by (cases rest) (auto simp: step_single split: if_splits)
next
  case double
  with assms(4) show ?thesis
    by (cases rest) (auto simp: step_double split: if_splits)
next
  case normal
  then have f: "\<not> in_line_comment st" "\<not> in_block_comment st" by (simp_all add: normal_def)
  show ?thesis
  proof (cases ch rest rule: normal_step_cases)
    case open_line
    with normal assms(3) show ?thesis by simp
  next
    case open_block
    with normal assms(3) show ?thesis by simp
  next
    case (open_dollar tag)
    from dollar_match_prefix [OF open_dollar(2)] obtain x where "ch # rest = tag @ x" ..
    then have "take (length tag) (ch # rest) = tag" by simp
    with normal open_dollar assms(4) f show ?thesis
      by (auto simp: step_normal_dollar)
  next
    case other
    with normal assms(3,4) f show ?thesis
      by (auto simp: step_normal_other split: if_splits)
  qed
qed

lemma scan_verbatim:
  "\<not> in_line_comment st \<Longrightarrow> \<not> in_block_comment st \<Longrightarrow> verbatim_run t st \<Longrightarrow>
     concat (buf (scan t st)) = concat (buf st) @ t \<and> statements (scan t st) = statements st"
proof (induction t st rule: scan.induct)
  case (1 st)
  then show ?case by simp
next
  case (2 ch rest st)
  obtain k st' where s: "step ch rest st = (k, st')" by (cases "step ch rest st")
  from "2.prems"(3) s have
    n: "\<not> (normal st \<and> (ch = SEMI \<or> opens_line ch rest \<or> opens_block ch rest))"
    and v: "verbatim_run (drop k (ch # rest)) st'"
    by simp_all
  from step_verbatim [OF "2.prems"(1,2) n s] have
    b: "concat (buf st') = concat (buf st) @ take k (ch # rest)"
    and st: "statements st' = statements st"
    and c: "\<not> in_line_comment st'" "\<not> in_block_comment st'"
    by simp_all
  from "2.IH" [OF s [symmetric] c v] have
    "concat (buf (scan (drop k (ch # rest)) st')) = concat (buf st') @ drop k (ch # rest)"
    "statements (scan (drop k (ch # rest)) st') = statements st'"
    by simp_all
  with b st s show ?case
    by (simp only: scan.simps prod.case append_assoc append_take_drop_id)
qed

lemma finish_flush: "finish st = statements (flush st)"
  by (simp add: finish_def flush_def Let_def)

lemma same_mode_flush_init: "normal st \<Longrightarrow> same_mode (flush st) init_state"
  by (simp add: same_mode_def normal_def init_state_def)

lemma verbatim_tail:
  assumes "normal st" "verbatim_run tail init_state" "\<not> list_all py_isspace tail"
  shows "finish (scan tail (flush st)) = statements (flush st) @ [py_strip tail]"
proof -
  from assms(1) have f: "\<not> in_line_comment (flush st)" "\<not> in_block_comment (flush st)"
    by (simp_all add: normal_def)
  from assms(1,2) have v: "verbatim_run tail (flush st)"
    using verbatim_run_same_mode [OF same_mode_flush_init, of st tail] by simp
  from scan_verbatim [OF f v] have
    "concat (buf (scan tail (flush st))) = tail"
    "statements (scan tail (flush st)) = statements (flush st)"
    by simp_all
  with assms(3) show ?thesis by (simp add: finish_def py_strip_Nil_iff)
qed

text \<open>
  Claim C8, amended.  Let the text be \<open>pre ; tail\<close> where the \<open>;\<close> is read in Normal mode
  and the scanner, reading \<open>tail\<close> from Normal mode, meets no comment and no further
  \<open>;\<close> in Normal mode (so the \<open>;\<close> is the last one that splits), or let the whole text be
  such a \<open>tail\<close>.  If \<open>tail\<close> is not entirely white space, the statements returned are
  those of \<open>pre\<close> followed by \<open>tail\<close> stripped: the remainder is emitted as the final
  statement although no \<open>;\<close> ends it.  Quoted literals, dollar regions and unterminated
  quotes in the remainder are covered; only comments are excluded.
\<close>

theorem trailing_remainder_emitted:
  "(normal (scan pre init_state) \<and> verbatim_run tail init_state \<and> \<not> list_all py_isspace tail \<longrightarrow>
      split_sql_statements (pre @ SEMI # tail) = split_sql_statements pre @ [py_strip tail])
   \<and> (verbatim_run tail init_state \<and> \<not> list_all py_isspace tail \<longrightarrow>
      split_sql_statements tail = [py_strip tail])"
proof (intro conjI impI)
  assume a: "normal (scan pre init_state) \<and> verbatim_run tail init_state
    \<and> \<not> list_all py_isspace tail"
  let ?st = "scan pre init_state"
  have "scan (pre @ SEMI # tail) init_state = scan (SEMI # tail) ?st"
    by (rule scan_append) (simp_all add: inert_start_def)
  also have "\<dots> = scan tail (flush ?st)"
    using a by (simp add: step_normal_semi)
  finally have "split_sql_statements (pre @ SEMI # tail) = finish (scan tail (flush ?st))"
    by (simp add: split_sql_statements_def)
  also have "\<dots> = statements (flush ?st) @ [py_strip tail]"
    using a by (simp add: verbatim_tail)
  finally show "split_sql_statements (pre @ SEMI # tail) = split_sql_statements pre @ [py_strip tail]"
    by (simp add: split_sql_statements_def finish_flush)
next
  assume a: "verbatim_run tail init_state \<and> \<not> list_all py_isspace tail"
  have n: "normal init_state" by (simp add: normal_def init_state_def)
  have f: "flush init_state = init_state" by (simp add: flush_def init_state_def py_strip_def)
  from verbatim_tail [OF n] a f show "split_sql_statements tail = [py_strip tail]"
    by (simp add: split_sql_statements_def init_state_def)
qed

theorem trailing_remainder_emitted_witness:
  "normal (scan (U ''a'') init_state)
   \<and> verbatim_run (U '' b-c/2 $1 '' @ [SQ] @ U ''x;y'' @ [SQ] @ U '' '') init_state
   \<and> \<not> list_all py_isspace (U '' b-c/2 $1 '' @ [SQ] @ U ''x;y'' @ [SQ] @ U '' '')
   \<and> split_sql_statements (U ''a; b-c/2 $1 '' @ [SQ] @ U ''x;y'' @ [SQ] @ U '' '')
       = [U ''a'', U ''b-c/2 $1 '' @ [SQ] @ U ''x;y'' @ [SQ]]
   \<and> split_sql_statements (U '' b-c/2 $1 '' @ [SQ] @ U ''x;y'' @ [SQ] @ U '' '')
       = [U ''b-c/2 $1 '' @ [SQ] @ U ''x;y'' @ [SQ]]"
  using trailing_remainder_emitted
    [of "U ''a''" "U '' b-c/2 $1 '' @ [SQ] @ U ''x;y'' @ [SQ] @ U '' ''"]
  by (simp add: U_def init_state_def step_def normal_def opens_line_def opens_block_def
      dollar_match_def is_tag_char_def py_isspace_def py_strip_def split_sql_statements_def
      finish_def flush_def)

theorem trailing_comment_counterexample:
  "normal (scan (U ''SELECT 1'') init_state)
   \<and> SEMI \<notin> set (U '' -- done'')
   \<and> \<not> list_all py_isspace (U '' -- done'')
   \<and> split_sql_statements (U ''SELECT 1; -- done'') = [U ''SELECT 1'']
   \<and> last (split_sql_statements (U ''SELECT 1; -- done'')) \<noteq> py_strip (U '' -- done'')"
  by (simp add: U_def split_sql_statements_def init_state_def step_def normal_def finish_def
      flush_def pad_space_def str_isspace_def py_isspace_def py_strip_def)

subsection \<open>Quoted literals and dollar regions are read as a whole\<close>

text \<open>
  The body of a literal quoted with \<open>q\<close>: every \<open>q\<close> in it is doubled (the escape of the
  source), so the body does not end the literal.
\<close>

fun quoted_body :: "uchar \<Rightarrow> pystr \<Rightarrow> bool" where
  "quoted_body q [] = True"
| "quoted_body q [c] = (c \<noteq> q)"
| "quoted_body q (c # d # r) = (if c = q then d = q \<and> quoted_body q r else quoted_body q (d # r))"

text \<open>
  The body of a dollar region with the tag \<open>tag\<close>: the tag does not start at any position
  of the body, so that the first occurrence of the tag behind the opening one is the
  closing one.
\<close>

fun closes_first :: "pystr \<Rightarrow> pystr \<Rightarrow> bool" where
  "closes_first tag [] = True"
| "closes_first tag (c # r) = (\<not> startswith (c # r @ tag) tag \<and> closes_first tag r)"

lemma scan_single_body:
  assumes "\<not> in_line_comment st" "\<not> in_block_comment st" "in_dollar st = None" "in_single st"
    and "quoted_body SQ body" "rest = [] \<or> hd rest \<noteq> SQ"
  shows "scan (body @ SQ # rest) st =
           scan rest (st\<lparr>in_single := False, buf := buf st @ map (\<lambda>c. [c]) (body @ [SQ])\<rparr>)"
  using assms
proof (induction SQ body arbitrary: st rule: quoted_body.induct)
  case 1
  then show ?case by (auto simp: step_single)
next
  case (2 c)
  then show ?case by (auto simp: step_single)
next
  case (3 c d r)
  show ?case
  proof (cases "c = SQ")
    case True
    with "3.prems" have d: "d = SQ" and q: "quoted_body SQ r" by simp_all
    have "scan ((c # d # r) @ SQ # rest) st =
            scan (r @ SQ # rest) (st\<lparr>buf := buf st @ [[SQ], [SQ]]\<rparr>)"
      using True d "3.prems"(1-4) by (simp add: step_single)
    also have "\<dots> = scan rest (st\<lparr>buf := buf st @ [[SQ], [SQ]]\<rparr>
        \<lparr>in_single := False,
         buf := buf (st\<lparr>buf := buf st @ [[SQ], [SQ]]\<rparr>) @ map (\<lambda>c. [c]) (r @ [SQ])\<rparr>)"
      using "3.prems"(1-4,6) q True by (intro "3.hyps"(1)) simp_all
    finally show ?thesis using True d by simp
  next
    case False
    with "3.prems" have q: "quoted_body SQ (d # r)" by simp
    have "scan ((c # d # r) @ SQ # rest) st =
            scan ((d # r) @ SQ # rest) (st\<lparr>buf := buf st @ [[c]]\<rparr>)"
      using False "3.prems"(1-4) by (simp add: step_single)
    also have "\<dots> = scan rest (st\<lparr>buf := buf st @ [[c]]\<rparr>
        \<lparr>in_single := False,
         buf := buf (st\<lparr>buf := buf st @ [[c]]\<rparr>) @ map (\<lambda>c. [c]) ((d # r) @ [SQ])\<rparr>)"
      using "3.prems"(1-4,6) q False by (intro "3.hyps"(2)) simp_all
    finally show ?thesis by simp
  qed
qed

lemma scan_double_body:
  assumes "\<not> in_line_comment st" "\<not> in_block_comment st" "in_dollar st = None" "\<not> in_single st"
    "in_double st"
    and "quoted_body DQ body" "rest = [] \<or> hd rest \<noteq> DQ"
  shows "scan (body @ DQ # rest) st =
           scan rest (st\<lparr>in_double := False, buf := buf st @ map (\<lambda>c. [c]) (body @ [DQ])\<rparr>)"
  using assms
proof (induction DQ body arbitrary: st rule: quoted_body.induct)
  case 1
  then show ?case by (auto simp: step_double)
next
  case (2 c)
  then show ?case by (auto simp: step_double)
next
  case (3 c d r)
  show ?case
  proof (cases "c = DQ")
    case True
    with "3.prems" have d: "d = DQ" and q: "quoted_body DQ r" by simp_all
    have "scan ((c # d # r) @ DQ # rest) st =
            scan (r @ DQ # rest) (st\<lparr>buf := buf st @ [[DQ], [DQ]]\<rparr>)"
      using True d "3.prems"(1-5) by (simp add: step_double)
    also have "\<dots> = scan rest (st\<lparr>buf := buf st @ [[DQ], [DQ]]\<rparr>
        \<lparr>in_double := False,
         buf := buf (st\<lparr>buf := buf st @ [[DQ], [DQ]]\<rparr>) @ map (\<lambda>c. [c]) (r @ [DQ])\<rparr>)"
      using "3.prems"(1-5,7) q True by (intro "3.hyps"(1)) simp_all
    finally show ?thesis using True d by simp
  next
    case False
    with "3.prems" have q: "quoted_body DQ (d # r)" by simp
    have "scan ((c # d # r) @ DQ # rest) st =
            scan ((d # r) @ DQ # rest) (st\<lparr>buf := buf st @ [[c]]\<rparr>)"
      using False "3.prems"(1-5) by (simp add: step_double)
    also have "\<dots> = scan rest (st\<lparr>buf := buf st @ [[c]]\<rparr>
        \<lparr>in_double := False,
         buf := buf (st\<lparr>buf := buf st @ [[c]]\<rparr>) @ map (\<lambda>c. [c]) ((d # r) @ [DQ])\<rparr>)"
      using "3.prems"(1-5,7) q False by (intro "3.hyps"(2)) simp_all
    finally show ?thesis by simp
  qed
qed


lemma startswith_append_long:
  "length tag \<le> length x \<Longrightarrow> startswith (x @ y) tag = startswith x tag"
  by (simp add: startswith_def)

lemma scan_dollar_body:
  assumes "\<not> in_line_comment st" "\<not> in_block_comment st" "in_dollar st = Some tag"
    and "tag \<noteq> []" "closes_first tag body"
  shows "scan (body @ tag @ rest) st =
           scan rest (st\<lparr>buf := buf st @ map (\<lambda>c. [c]) body @ [tag], in_dollar := None\<rparr>)"
  using assms
proof (induction body arbitrary: st)
  case Nil
  from \<open>tag \<noteq> []\<close> obtain t ts where t: "tag = t # ts" by (cases tag) auto
  have "startswith (t # ts @ rest) tag" by (simp add: startswith_def t)
  with Nil(1-3) have "step t (ts @ rest) st =
      (length tag, st\<lparr>buf := buf st @ [tag], in_dollar := None\<rparr>)"
    by (simp add: step_dollar)
  moreover have "drop (length tag) (t # ts @ rest) = rest" by (simp add: t)
  ultimately show ?case by (simp add: t)
next
  case (Cons c r)
  from Cons.prems(5) have n: "\<not> startswith (c # r @ tag) tag" and cf: "closes_first tag r"
    by simp_all
  have "startswith ((c # r @ tag) @ rest) tag = startswith (c # r @ tag) tag"
    by (rule startswith_append_long) simp
  with n have "\<not> startswith (c # r @ tag @ rest) tag" by simp
  with Cons.prems(1-3) have "step c (r @ tag @ rest) st = (1, st\<lparr>buf := buf st @ [[c]]\<rparr>)"
    by (simp add: step_dollar)
  then have "scan ((c # r) @ tag @ rest) st = scan (r @ tag @ rest) (st\<lparr>buf := buf st @ [[c]]\<rparr>)"
    by simp
  also have "\<dots> = scan rest (st\<lparr>buf := buf st @ [[c]]\<rparr>
      \<lparr>buf := buf (st\<lparr>buf := buf st @ [[c]]\<rparr>) @ map (\<lambda>c. [c]) r @ [tag], in_dollar := None\<rparr>)"
    using Cons.prems(1-4) cf by (intro Cons.IH) simp_all
  finally show ?case by simp
qed

subsection \<open>Counting the semicolons read in Normal mode\<close>

text \<open>The number of iterations of the loop that read \<open>;\<close> in Normal mode.\<close>

function normal_semis :: "pystr \<Rightarrow> scan_state \<Rightarrow> nat" where
  "normal_semis [] st = 0"
| "normal_semis (ch # rest) st =
     (if normal st \<and> ch = SEMI then 1 else 0)
     + (case step ch rest st of (k, st') \<Rightarrow> normal_semis (drop k (ch # rest)) st')"
  by pat_completeness auto
termination
  apply (relation "measure (\<lambda>(t, st). 2 * length t + (if in_dollar st = None then 0 else 1))")
   apply simp
  subgoal for ch rest st k st'
    using step_decreases [of ch rest st k st'] by simp
  done

lemma length_statements_flush: "length (statements (flush st)) \<le> Suc (length (statements st))"
  by (simp add: flush_def Let_def)

lemma length_statements_scan:
  "length (statements (scan t st)) \<le> length (statements st) + normal_semis t st"
proof (induction t st rule: scan.induct)
  case (1 st)
  then show ?case by simp
next
  case (2 ch rest st)
  obtain k st' where s: "step ch rest st = (k, st')" by (cases "step ch rest st")
  from step_statements [of ch rest st] s have
    "statements st' = (if normal st \<and> ch = SEMI then statements (flush st) else statements st)"
    by simp
  with length_statements_flush [of st] have
    "length (statements st') \<le> length (statements st) + (if normal st \<and> ch = SEMI then 1 else 0)"
    by simp
  with "2.IH" [OF s [symmetric]] s show ?case by simp
qed

lemma normal_fields:
  assumes "normal st"
  shows "st\<lparr>in_single := False\<rparr> = st" "st\<lparr>in_double := False\<rparr> = st" "st\<lparr>in_dollar := None\<rparr> = st"
    "\<not> in_line_comment st" "\<not> in_block_comment st" "in_dollar st = None" "\<not> in_single st"
    "\<not> in_double st"
  using assms by (simp_all add: normal_def)

lemma step_normal_quote:
  assumes "normal st"
  shows "step SQ rest st = (1, st\<lparr>in_single := True, buf := buf st @ [[SQ]]\<rparr>)"
    and "step DQ rest st = (1, st\<lparr>in_double := True, buf := buf st @ [[DQ]]\<rparr>)"
  using assms
  by (simp_all add: step_normal_other opens_line_def opens_block_def dollar_match_def)

lemma scan_single_literal:
  assumes "normal st" "quoted_body SQ body" "rest = [] \<or> hd rest \<noteq> SQ"
  shows "scan (SQ # body @ SQ # rest) st =
           scan rest (st\<lparr>buf := buf st @ map (\<lambda>c. [c]) (SQ # body @ [SQ])\<rparr>)"
proof -
  let ?s = "st\<lparr>in_single := True, buf := buf st @ [[SQ]]\<rparr>"
  have "scan (SQ # body @ SQ # rest) st = scan (body @ SQ # rest) ?s"
    using assms(1) by (simp add: step_normal_quote)
  also have "\<dots> = scan rest (?s\<lparr>in_single := False, buf := buf ?s @ map (\<lambda>c. [c]) (body @ [SQ])\<rparr>)"
    using assms by (intro scan_single_body) (simp_all add: normal_def)
  also have "?s\<lparr>in_single := False, buf := buf ?s @ map (\<lambda>c. [c]) (body @ [SQ])\<rparr>
      = (st\<lparr>in_single := False\<rparr>)\<lparr>buf := buf st @ map (\<lambda>c. [c]) (SQ # body @ [SQ])\<rparr>"
    by simp
  finally show ?thesis by (simp only: normal_fields [OF assms(1)])
qed

lemma scan_double_literal:
  assumes "normal st" "quoted_body DQ body" "rest = [] \<or> hd rest \<noteq> DQ"
  shows "scan (DQ # body @ DQ # rest) st =
           scan rest (st\<lparr>buf := buf st @ map (\<lambda>c. [c]) (DQ # body @ [DQ])\<rparr>)"
proof -
  let ?s = "st\<lparr>in_double := True, buf := buf st @ [[DQ]]\<rparr>"
  have "scan (DQ # body @ DQ # rest) st = scan (body @ DQ # rest) ?s"
    using assms(1) by (simp add: step_normal_quote)
  also have "\<dots> = scan rest (?s\<lparr>in_double := False, buf := buf ?s @ map (\<lambda>c. [c]) (body @ [DQ])\<rparr>)"
    using assms by (intro scan_double_body) (simp_all add: normal_def)
  also have "?s\<lparr>in_double := False, buf := buf ?s @ map (\<lambda>c. [c]) (body @ [DQ])\<rparr>
      = (st\<lparr>in_double := False\<rparr>)\<lparr>buf := buf st @ map (\<lambda>c. [c]) (DQ # body @ [DQ])\<rparr>"
    by simp
  finally show ?thesis by (simp only: normal_fields [OF assms(1)])
qed

lemma scan_dollar_region:
  assumes "normal st" "dollar_match tag = Some tag" "closes_first tag body"
  shows "scan (tag @ body @ tag @ rest) st =
           scan rest (st\<lparr>buf := buf st @ [tag] @ map (\<lambda>c. [c]) body @ [tag]\<rparr>)"
proof -
  from dollar_match_shape [OF assms(2)] obtain run where t: "tag = DOLLAR # run @ [DOLLAR]"
    by blast
  let ?x = "body @ tag @ rest"
  let ?s = "st\<lparr>buf := buf st @ [tag], in_dollar := Some tag\<rparr>"
  have m: "dollar_match (DOLLAR # (run @ [DOLLAR]) @ ?x) = Some tag"
    using dollar_match_tag_append [OF assms(2), of ?x] by (simp add: t)
  have "step DOLLAR ((run @ [DOLLAR]) @ ?x) st = (length tag, ?s)"
    using step_normal_dollar [OF assms(1) m] .
  moreover have "drop (length tag) (DOLLAR # (run @ [DOLLAR]) @ ?x) = ?x"
    by (simp add: t)
  ultimately have "scan (DOLLAR # (run @ [DOLLAR]) @ ?x) st = scan ?x ?s"
    by (simp only: scan.simps prod.case)
  then have "scan (tag @ ?x) st = scan ?x ?s" by (simp add: t)
  also have "\<dots> = scan rest (?s\<lparr>buf := buf ?s @ map (\<lambda>c. [c]) body @ [tag], in_dollar := None\<rparr>)"
    using assms(1,3) t by (intro scan_dollar_body) (simp_all add: normal_def)
  also have "?s\<lparr>buf := buf ?s @ map (\<lambda>c. [c]) body @ [tag], in_dollar := None\<rparr>
      = (st\<lparr>in_dollar := None\<rparr>)\<lparr>buf := buf st @ [tag] @ map (\<lambda>c. [c]) body @ [tag]\<rparr>"
    by simp
  finally show ?thesis by (simp only: normal_fields [OF assms(1)])
qed

lemma scan_line_comment_region:
  assumes "normal st" "NL \<notin> set body"
  shows "scan (DASH # DASH # body @ NL # rest) st = scan rest (pad_space st)"
proof -
  have r: "(pad_space st)\<lparr>in_line_comment := True, in_line_comment := False\<rparr> = pad_space st"
    using assms(1) by (simp add: normal_def)
  show ?thesis
    using assms by (simp add: step_open_line scan_line_comment_nl r)
qed

lemma scan_block_comment_region:
  assumes "normal st" "no_close body"
  shows "scan (SLASH # STAR # body @ STAR # SLASH # rest) st = scan rest (pad_space st)"
proof -
  have r: "(pad_space st)\<lparr>in_block_comment := True, in_block_comment := False\<rparr> = pad_space st"
    using assms(1) by (simp add: normal_def)
  have l: "\<not> in_line_comment ((pad_space st)\<lparr>in_block_comment := True\<rparr>)"
    using assms(1) by (simp add: normal_def)
  show ?thesis
    using assms l by (simp add: step_open_block scan_block_comment_close r)
qed

lemma length_split: "length (split_sql_statements text) \<le> normal_semis text init_state + 1"
proof -
  have f: "length (finish st) \<le> length (statements st) + 1" for st
    by (simp add: finish_def Let_def)
  from f [of "scan text init_state"] length_statements_scan [of "text" init_state]
  show ?thesis by (simp add: split_sql_statements_def init_state_def)
qed

text \<open>
  Claim C1.  From every Normal-mode state, a whole single-quoted literal (with doubled
  quotes in its body), a whole double-quoted identifier and a whole dollar-quoted region
  are read without a split, whatever semicolons they hold: scanning goes on behind the
  region from the state in which only the buffer has grown, by the region as it stands,
  delimiters included.  A line or block comment is read without a split as well.  In
  every iteration of the loop other than one that reads \<open>;\<close> in Normal mode the
  statements are unchanged and the buffer is only extended, while \<open>;\<close> in Normal mode is
  the flush; so a text yields at most one statement more than it has semicolons read in
  Normal mode.  The inputs of the specification split into one statement each, with the
  quoted text, its semicolon and the dollar delimiters kept.
\<close>

theorem semicolon_splits_only_in_normal_mode:
  "(normal st \<and> quoted_body SQ sbody \<and> (rest = [] \<or> hd rest \<noteq> SQ) \<longrightarrow>
      scan (SQ # sbody @ SQ # rest) st =
        scan rest (st\<lparr>buf := buf st @ map (\<lambda>c. [c]) (SQ # sbody @ [SQ])\<rparr>))
   \<and> (normal st \<and> quoted_body DQ dbody \<and> (rest = [] \<or> hd rest \<noteq> DQ) \<longrightarrow>
      scan (DQ # dbody @ DQ # rest) st =
        scan rest (st\<lparr>buf := buf st @ map (\<lambda>c. [c]) (DQ # dbody @ [DQ])\<rparr>))
   \<and> (normal st \<and> dollar_match tag = Some tag \<and> closes_first tag body \<longrightarrow>
      scan (tag @ body @ tag @ rest) st =
        scan rest (st\<lparr>buf := buf st @ [tag] @ map (\<lambda>c. [c]) body @ [tag]\<rparr>))
   \<and> (normal st \<and> NL \<notin> set lbody \<longrightarrow>
      scan (DASH # DASH # lbody @ NL # rest) st = scan rest (pad_space st))
   \<and> (normal st \<and> no_close bbody \<longrightarrow>
      scan (SLASH # STAR # bbody @ STAR # SLASH # rest) st = scan rest (pad_space st))
   \<and> (\<not> (normal s \<and> ch = SEMI) \<longrightarrow>
      statements (snd (step ch r s)) = statements s
      \<and> take (length (buf s)) (buf (snd (step ch r s))) = buf s)
   \<and> (normal st \<longrightarrow> step SEMI rest st = (1, flush st))
   \<and> length (split_sql_statements text) \<le> normal_semis text init_state + 1
   \<and> split_sql_statements (U ''SELECT '' @ [SQ] @ U ''semi;colon'' @ [SQ] @ U '';'')
        = [U ''SELECT '' @ [SQ] @ U ''semi;colon'' @ [SQ]]
   \<and> split_sql_statements (U ''SELECT $$a;b$$;'') = [U ''SELECT $$a;b$$'']
   \<and> split_sql_statements (U ''SELECT $q_1$a;b$q_1$, '' @ [DQ] @ U ''c;d'' @ [DQ] @ U '';'')
        = [U ''SELECT $q_1$a;b$q_1$, '' @ [DQ] @ U ''c;d'' @ [DQ]]"
proof (intro conjI impI)
  assume "normal st \<and> quoted_body SQ sbody \<and> (rest = [] \<or> hd rest \<noteq> SQ)"
  then show "scan (SQ # sbody @ SQ # rest) st =
      scan rest (st\<lparr>buf := buf st @ map (\<lambda>c. [c]) (SQ # sbody @ [SQ])\<rparr>)"
    by (intro scan_single_literal) simp_all
next
  assume "normal st \<and> quoted_body DQ dbody \<and> (rest = [] \<or> hd rest \<noteq> DQ)"
  then show "scan (DQ # dbody @ DQ # rest) st =
      scan rest (st\<lparr>buf := buf st @ map (\<lambda>c. [c]) (DQ # dbody @ [DQ])\<rparr>)"
    by (intro scan_double_literal) simp_all
next
  assume "normal st \<and> dollar_match tag = Some tag \<and> closes_first tag body"
  then show "scan (tag @ body @ tag @ rest) st =
      scan rest (st\<lparr>buf := buf st @ [tag] @ map (\<lambda>c. [c]) body @ [tag]\<rparr>)"
    by (intro scan_dollar_region) simp_all
next
  assume "normal st \<and> NL \<notin> set lbody"
  then show "scan (DASH # DASH # lbody @ NL # rest) st = scan rest (pad_space st)"
    by (intro scan_line_comment_region) simp_all
next
  assume "normal st \<and> no_close bbody"
  then show "scan (SLASH # STAR # bbody @ STAR # SLASH # rest) st = scan rest (pad_space st)"
    by (intro scan_block_comment_region) simp_all
next
  assume a: "\<not> (normal s \<and> ch = SEMI)"
  then show "statements (snd (step ch r s)) = statements s"
    by (auto simp: step_statements)
  from a show "take (length (buf s)) (buf (snd (step ch r s))) = buf s"
    by (rule step_keeps_statement)
next
  assume "normal st"
  then show "step SEMI rest st = (1, flush st)" by (rule step_normal_semi)
next
  show "length (split_sql_statements text) \<le> normal_semis text init_state + 1"
    by (rule length_split)
next
  show "split_sql_statements (U ''SELECT '' @ [SQ] @ U ''semi;colon'' @ [SQ] @ U '';'')
          = [U ''SELECT '' @ [SQ] @ U ''semi;colon'' @ [SQ]]"
    by (simp add: U_def split_sql_statements_def init_state_def step_def finish_def flush_def
        py_strip_def py_isspace_def)
  show "split_sql_statements (U ''SELECT $$a;b$$;'') = [U ''SELECT $$a;b$$'']"
    by (simp add: U_def split_sql_statements_def init_state_def step_def finish_def flush_def
        py_strip_def py_isspace_def dollar_match_def is_tag_char_def startswith_def)
  show "split_sql_statements (U ''SELECT $q_1$a;b$q_1$, '' @ [DQ] @ U ''c;d'' @ [DQ] @ U '';'')
          = [U ''SELECT $q_1$a;b$q_1$, '' @ [DQ] @ U ''c;d'' @ [DQ]]"
    by (simp add: U_def split_sql_statements_def init_state_def step_def finish_def flush_def
        py_strip_def py_isspace_def dollar_match_def is_tag_char_def startswith_def)
qed

theorem semicolon_splits_only_in_normal_mode_witness:
  "normal (init_state\<lparr>buf := [U ''x'']\<rparr>)
   \<and> quoted_body SQ (U ''a;'' @ [SQ, SQ] @ U ''b'') \<and> quoted_body DQ (U ''a;b'')
   \<and> hd (U '';c'') \<noteq> SQ \<and> hd (U '';c'') \<noteq> DQ
   \<and> dollar_match (U ''$q$'') = Some (U ''$q$'') \<and> closes_first (U ''$q$'') (U ''a;$b'')
   \<and> NL \<notin> set (U ''a;b'') \<and> no_close (U ''a;*b'')
   \<and> scan (SQ # (U ''a;'' @ [SQ, SQ] @ U ''b'') @ SQ # U '';c'') (init_state\<lparr>buf := [U ''x'']\<rparr>)
       = init_state\<lparr>statements := [U ''x'' @ [SQ] @ U ''a;'' @ [SQ, SQ] @ U ''b'' @ [SQ]],
           buf := [U ''c'']\<rparr>
   \<and> scan (DQ # U ''a;b'' @ DQ # U '';c'') (init_state\<lparr>buf := [U ''x'']\<rparr>)
       = init_state\<lparr>statements := [U ''x'' @ [DQ] @ U ''a;b'' @ [DQ]], buf := [U ''c'']\<rparr>
   \<and> scan (U ''$q$'' @ U ''a;$b'' @ U ''$q$'' @ U '';c'') (init_state\<lparr>buf := [U ''x'']\<rparr>)
       = init_state\<lparr>statements := [U ''x$q$a;$b$q$''], buf := [U ''c'']\<rparr>
   \<and> scan (DASH # DASH # U ''a;b'' @ NL # U '';c'') (init_state\<lparr>buf := [U ''x'']\<rparr>)
       = init_state\<lparr>statements := [U ''x''], buf := [U ''c'']\<rparr>
   \<and> scan (SLASH # STAR # U ''a;*b'' @ STAR # SLASH # U '';c'') (init_state\<lparr>buf := [U ''x'']\<rparr>)
       = init_state\<lparr>statements := [U ''x''], buf := [U ''c'']\<rparr>
   \<and> \<not> (normal (init_state\<lparr>in_double := True, buf := [[DQ]]\<rparr>) \<and> SEMI = SEMI)
   \<and> snd (step SEMI (U ''x'') (init_state\<lparr>in_double := True, buf := [[DQ]]\<rparr>))
       = init_state\<lparr>in_double := True, buf := [[DQ], [SEMI]]\<rparr>
   \<and> step SEMI (U '';c'') (init_state\<lparr>buf := [U ''x'']\<rparr>)
       = (1, init_state\<lparr>statements := [U ''x'']\<rparr>)"
  using semicolon_splits_only_in_normal_mode
    [where st = "init_state\<lparr>buf := [U ''x'']\<rparr>" and sbody = "U ''a;'' @ [SQ, SQ] @ U ''b''"
      and dbody = "U ''a;b''" and rest = "U '';c''" and tag = "U ''$q$''" and body = "U ''a;$b''"
      and lbody = "U ''a;b''" and bbody = "U ''a;*b''"
      and s = "init_state\<lparr>in_double := True, buf := [[DQ]]\<rparr>" and ch = SEMI and r = "U ''x''"]
  by (simp add: U_def init_state_def normal_def step_def dollar_match_def is_tag_char_def
      startswith_def pad_space_def str_isspace_def py_isspace_def py_strip_def flush_def)

section \<open>The plan distiller\<close>

subsection \<open>JSON values and Python dictionaries\<close>

text \<open>
  The value that \<open>EXPLAIN (FORMAT JSON)\<close> yields after decoding: \<open>None\<close>, booleans,
  integers, finite floats (each is a rational number; the distiller only copies them and
  tests them for zero), strings, lists and dictionaries.  A dictionary is the list of
  its items in insertion order; \<open>map_of\<close> is its lookup.
\<close>

datatype json =
    JNull
  | JBool bool
  | JInt int
  | JFloat rat
  | JStr string
  | JArr "json list"
  | JObj "(string \<times> json) list"

type_synonym dict = "(string \<times> json) list"

text \<open>\<open>d.get(key)\<close>, with \<open>None\<close> for a missing key.\<close>

definition dict_get :: "dict \<Rightarrow> string \<Rightarrow> json" where
  "dict_get d key = (case map_of d key of None \<Rightarrow> JNull | Some v \<Rightarrow> v)"

text \<open>\<open>d[key] = value\<close>: an existing key keeps its place, a new key is appended.\<close>

fun dict_set :: "dict \<Rightarrow> string \<Rightarrow> json \<Rightarrow> dict" where
  "dict_set [] key v = [(key, v)]"
| "dict_set ((k, w) # d) key v = (if k = key then (k, v) # d else (k, w) # dict_set d key v)"

text \<open>Python's truth value of a decoded JSON value.\<close>

fun truthy :: "json \<Rightarrow> bool" where
  "truthy JNull = False"
| "truthy (JBool b) = b"
| "truthy (JInt n) = (n \<noteq> 0)"
| "truthy (JFloat x) = (x \<noteq> 0)"
| "truthy (JStr s) = (s \<noteq> [])"
| "truthy (JArr xs) = (xs \<noteq> [])"
| "truthy (JObj kvs) = (kvs \<noteq> [])"

datatype py_error = TypeError

text \<open>
  What a \<open>for\<close> loop visits: the elements of a list, the characters of a string, the keys
  of a dictionary; any other value is not iterable and raises \<open>TypeError\<close>.
\<close>

fun py_iter :: "json \<Rightarrow> py_error + json list" where
  "py_iter (JArr xs) = Inr xs"
| "py_iter (JStr s) = Inr (map (\<lambda>c. JStr [c]) s)"
| "py_iter (JObj kvs) = Inr (map (\<lambda>kv. JStr (fst kv)) kvs)"
| "py_iter JNull = Inl TypeError"
| "py_iter (JBool b) = Inl TypeError"
| "py_iter (JInt n) = Inl TypeError"
| "py_iter (JFloat x) = Inl TypeError"

subsection \<open>\<open>_add_if_present\<close> and the item of one plan node\<close>

definition add_if_present :: "dict \<Rightarrow> dict \<Rightarrow> string \<Rightarrow> string \<Rightarrow> dict" where
  "add_if_present payload node key out_key =
     (let v = dict_get node key in
      if v \<noteq> JNull then dict_set payload out_key v else payload)"

text \<open>
  The twenty-two calls of \<open>_add_if_present\<close> in \<open>_extract_plan_nodes\<close>, in the order of the
  source: the key read from the plan node and the key written to the item.
\<close>

definition field_table :: "(string \<times> string) list" where
  "field_table =
     [(''Relation Name'', ''relation''),
      (''Index Name'', ''index''),
      (''Actual Rows'', ''actual_rows''),
      (''Actual Loops'', ''actual_loops''),
      (''Actual Total Time'', ''actual_total_time_ms''),
      (''Plan Rows'', ''plan_rows''),
      (''Plan Width'', ''plan_width''),
      (''Total Cost'', ''plan_total_cost''),
      (''Filter'', ''filter''),
      (''Index Cond'', ''index_cond''),
      (''Recheck Cond'', ''recheck_cond''),
      (''Hash Cond'', ''hash_cond''),
      (''Merge Cond'', ''merge_cond''),
      (''Join Filter'', ''join_filter''),
      (''Sort Key'', ''sort_key''),
      (''Group Key'', ''group_key''),
      (''Shared Hit Blocks'', ''shared_hit_blocks''),
      (''Shared Read Blocks'', ''shared_read_blocks''),
      (''Shared Dirtied Blocks'', ''shared_dirtied_blocks''),
      (''Shared Written Blocks'', ''shared_written_blocks''),
      (''Temp Read Blocks'', ''temp_read_blocks''),
      (''Temp Written Blocks'', ''temp_written_blocks'')]"

text \<open>
  The item built for one node: \<open>node_type\<close> and \<open>depth\<close> always, then the calls of the
  table one after the other.
\<close>

definition plan_item :: "dict \<Rightarrow> int \<Rightarrow> dict" where
  "plan_item node depth =
     foldl (\<lambda>item (key, out_key). add_if_present item node key out_key)
       [(''node_type'', dict_get node ''Node Type''), (''depth'', JInt depth)]
       field_table"

subsection \<open>\<open>_extract_plan_nodes\<close>\<close>

text \<open>\<open>node.get("Plans", []) or []\<close>\<close>

definition plans_of :: "dict \<Rightarrow> json" where
  "plans_of node =
     (let v = (case map_of node ''Plans'' of None \<Rightarrow> JArr [] | Some v \<Rightarrow> v) in
      if truthy v then v else JArr [])"

text \<open>The elements for which \<open>isinstance(child, dict)\<close> holds.\<close>

fun dicts_of :: "json list \<Rightarrow> dict list" where
  "dicts_of [] = []"
| "dicts_of (JObj kvs # xs) = kvs # dicts_of xs"
| "dicts_of (_ # xs) = dicts_of xs"

text \<open>
  The children that the loop \<open>for child in node.get("Plans", []) or []\<close> recurses into,
  or the \<open>TypeError\<close> of a value that cannot be iterated.
\<close>

definition plan_children :: "dict \<Rightarrow> py_error + dict list" where
  "plan_children node =
     (case py_iter (plans_of node) of Inl e \<Rightarrow> Inl e | Inr xs \<Rightarrow> Inr (dicts_of xs))"

lemma size_map_of: "map_of d k = Some v \<Longrightarrow> size v < size (JObj d)"
  by (induction d) (auto split: if_splits)

lemma size_dicts_of: "size_list (\<lambda>c. size (JObj c)) (dicts_of xs) \<le> size_list size xs"
  by (induction xs rule: dicts_of.induct) simp_all

lemma dicts_of_strs [simp]: "dicts_of (map (\<lambda>x. JStr (f x)) xs) = []"
  by (induction xs) simp_all

lemma plan_children_size:
  assumes "plan_children node = Inr cs"
  shows "size_list (\<lambda>c. size (JObj c)) cs < size (JObj node)"
proof (cases "plans_of node")
  case (JArr xs)
  with assms have cs: "cs = dicts_of xs" by (simp add: plan_children_def)
  show ?thesis
  proof (cases "map_of node ''Plans''")
    case None
    with JArr have "xs = []" by (simp add: plans_of_def)
    with cs show ?thesis by simp
  next
    case (Some v)
    show ?thesis
    proof (cases "truthy v")
      case True
      with Some JArr have "v = JArr xs" by (simp add: plans_of_def)
      with size_map_of [OF Some] have "size_list size xs < size (JObj node)" by simp
      with size_dicts_of [of xs] cs show ?thesis by simp
    next
      case False
      with Some JArr have "xs = []" by (simp add: plans_of_def)
      with cs show ?thesis by simp
    qed
  qed
qed (use assms in \<open>simp_all add: plan_children_def\<close>)

function extract_plan_nodes :: "dict \<Rightarrow> int \<Rightarrow> dict list \<Rightarrow> py_error + dict list"
  and extract_children :: "dict list \<Rightarrow> int \<Rightarrow> dict list \<Rightarrow> py_error + dict list" where
  "extract_plan_nodes node depth out =
     (case plan_children node of
        Inl e \<Rightarrow> Inl e
      | Inr children \<Rightarrow> extract_children children depth (out @ [plan_item node depth]))"
| "extract_children [] depth out = Inr out"
| "extract_children (child # children) depth out =
     (case extract_plan_nodes child (depth + 1) out of
        Inl e \<Rightarrow> Inl e
      | Inr out' \<Rightarrow> extract_children children depth out')"
  by pat_completeness auto
termination
  apply (relation "measure (\<lambda>x. case x of
            Inl (node, _, _) \<Rightarrow> size (JObj node)
          | Inr (cs, _, _) \<Rightarrow> size_list (\<lambda>c. size (JObj c)) cs)")
     apply simp
  subgoal for node depth out cs
    using plan_children_size [of node cs] by simp
   apply simp
  apply simp
  done

subsection \<open>\<open>_summarize_plan\<close> and \<open>_distill_plan\<close>\<close>

definition summarize_plan :: "dict \<Rightarrow> json \<times> json \<times> json" where
  "summarize_plan plan =
     (let planning_time = dict_get plan ''Planning Time'';
          execution_time = dict_get plan ''Execution Time'';
          top_plan = dict_get plan ''Plan'';
          top_rows = (case top_plan of JObj tp \<Rightarrow> dict_get tp ''Actual Rows'' | _ \<Rightarrow> JNull)
      in (planning_time, execution_time, top_rows))"

text \<open>
  The result is the returned dictionary, or the exception that the walk raised.  The
  list \<open>nodes\<close> is the list \<open>plan_nodes\<close> of the result.
\<close>

definition distill_plan :: "dict \<Rightarrow> py_error + dict" where
  "distill_plan plan =
     (case summarize_plan plan of
        (planning_time, execution_time, top_rows) \<Rightarrow>
          (case (case dict_get plan ''Plan'' of
                   JObj top_plan \<Rightarrow> extract_plan_nodes top_plan 0 []
                 | _ \<Rightarrow> Inr []) of
             Inl e \<Rightarrow> Inl e
           | Inr nodes \<Rightarrow>
               Inr [(''planning_time_ms'', planning_time),
                    (''execution_time_ms'', execution_time),
                    (''top_actual_rows'', top_rows),
                    (''plan_nodes'', JArr (map JObj nodes))]))"

subsection \<open>The plan tree that a dictionary stands for\<close>

text \<open>
  The tree of the specification: the children of a node are the dictionaries in its
  \<open>Plans\<close> list.  \<open>preorder d node\<close> lists the nodes of the tree below \<open>node\<close>, each with
  its depth, the parent before its children and siblings in source order;
  \<open>node_count\<close> counts them.  \<open>plans_iterable\<close> holds when the \<open>Plans\<close> field of every
  node of the tree is absent or a value that Python can iterate.
\<close>

definition child_nodes :: "dict \<Rightarrow> dict list" where
  "child_nodes node = (case plan_children node of Inl e \<Rightarrow> [] | Inr cs \<Rightarrow> cs)"

lemma child_nodes_size: "c \<in> set (child_nodes node) \<Longrightarrow> size (JObj c) < size (JObj node)"
proof (cases "plan_children node")
  case (Inl e)
  assume "c \<in> set (child_nodes node)"
  with Inl show ?thesis by (simp add: child_nodes_def)
next
  case (Inr cs)
  assume "c \<in> set (child_nodes node)"
  with Inr have "c \<in> set cs" by (simp add: child_nodes_def)
  then have "size (JObj c) \<le> size_list (\<lambda>c. size (JObj c)) cs"
    by (induction cs) auto
  with plan_children_size [OF Inr] show ?thesis by simp
qed

function preorder :: "int \<Rightarrow> dict \<Rightarrow> (int \<times> dict) list" where
  "preorder d node = (d, node) # concat (map (preorder (d + 1)) (child_nodes node))"
  by pat_completeness auto
termination
  by (relation "measure (\<lambda>(d, node). size (JObj node))") (auto dest: child_nodes_size)

function node_count :: "dict \<Rightarrow> nat" where
  "node_count node = 1 + sum_list (map node_count (child_nodes node))"
  by pat_completeness auto
termination
  by (relation "measure (\<lambda>node. size (JObj node))") (auto dest: child_nodes_size)

function plans_iterable :: "dict \<Rightarrow> bool" where
  "plans_iterable node =
     (case plan_children node of Inl e \<Rightarrow> False | Inr cs \<Rightarrow> list_all plans_iterable cs)"
  by pat_completeness auto
termination
  apply (relation "measure (\<lambda>node. size (JObj node))")
   apply simp
  subgoal for node cs c
    using child_nodes_size [of c node] by (simp add: child_nodes_def)
  done

text \<open>
  The defining equations of the three functions apply to every argument; they are used
  by explicit unfolding only.
\<close>

declare preorder.simps [simp del] node_count.simps [simp del] plans_iterable.simps [simp del]


section \<open>Properties of the plan distiller\<close>

subsection \<open>Optional fields\<close>

lemma map_of_dict_set:
  "map_of (dict_set d key v) x = (if x = key then Some v else map_of d x)"
  by (induction d key v rule: dict_set.induct) auto

lemma keys_dict_set: "set (map fst (dict_set d key v)) = insert key (set (map fst d))"
  by (induction d key v rule: dict_set.induct) auto

text \<open>What one call contributes: the value of the source key when it is present and not \<open>None\<close>.\<close>

definition copied :: "dict \<Rightarrow> string \<Rightarrow> json option" where
  "copied node key =
     (case map_of node key of None \<Rightarrow> None | Some v \<Rightarrow> if v = JNull then None else Some v)"

lemma map_of_add_if_present:
  "map_of (add_if_present payload node key out_key) x =
     (if x = out_key \<and> copied node key \<noteq> None then copied node key else map_of payload x)"
  by (auto simp: add_if_present_def dict_get_def copied_def map_of_dict_set Let_def
      split: option.splits)

lemma map_of_foldl_table:
  assumes "distinct (map snd table)"
  shows "map_of (foldl (\<lambda>item (key, out_key). add_if_present item node key out_key) d table) x =
     (case map_of (map (\<lambda>(key, out_key). (out_key, key)) table) x of
        None \<Rightarrow> map_of d x
      | Some key \<Rightarrow> (case copied node key of None \<Rightarrow> map_of d x | Some v \<Rightarrow> Some v))"
  using assms
proof (induction table arbitrary: d)
  case Nil
  then show ?case by simp
next
  case (Cons p table)
  obtain key out_key where p: "p = (key, out_key)" by (cases p)
  from Cons.prems p have d: "distinct (map snd table)" and n: "out_key \<notin> snd ` set table"
    by simp_all
  from n have m: "map_of (map (\<lambda>(key, out_key). (out_key, key)) table) out_key = None"
    by (force simp: map_of_eq_None_iff)
  show ?case
    using Cons.IH [OF d, of "add_if_present d node key out_key"] m
    by (auto simp: p map_of_add_if_present split: option.splits)
qed

lemma keys_add_if_present:
  "set (map fst (add_if_present payload node key out_key)) \<subseteq> insert out_key (set (map fst payload))"
  using keys_dict_set [of payload out_key "dict_get node key"]
  by (auto simp: add_if_present_def Let_def)

lemma keys_foldl_table:
  "set (map fst (foldl (\<lambda>item (key, out_key). add_if_present item node key out_key) d table))
     \<subseteq> set (map fst d) \<union> set (map snd table)"
proof (induction table arbitrary: d)
  case Nil
  then show ?case by simp
next
  case (Cons p table)
  obtain key out_key where p: "p = (key, out_key)" by (cases p)
  from Cons.IH [of "add_if_present d node key out_key"] keys_add_if_present [of d node key out_key]
  show ?case by (auto simp: p)
qed

lemma distinct_field_table: "distinct (map snd field_table)"
  by (simp add: field_table_def)

lemma map_of_plan_item:
  "map_of (plan_item node depth) x =
     (case map_of (map (\<lambda>(key, out_key). (out_key, key)) field_table) x of
        None \<Rightarrow> map_of [(''node_type'', dict_get node ''Node Type''), (''depth'', JInt depth)] x
      | Some key \<Rightarrow>
          (case copied node key of
             None \<Rightarrow> map_of [(''node_type'', dict_get node ''Node Type''), (''depth'', JInt depth)] x
           | Some v \<Rightarrow> Some v))"
  unfolding plan_item_def by (rule map_of_foldl_table [OF distinct_field_table])

lemma plan_item_field:
  assumes "(key, out_key) \<in> set field_table"
  shows "map_of (plan_item node depth) out_key = copied node key"
proof -
  from assms have "(out_key, key) \<in> set (map (\<lambda>(key, out_key). (out_key, key)) field_table)"
    by force
  moreover have "distinct (map fst (map (\<lambda>(key, out_key). (out_key, key)) field_table))"
    using distinct_field_table by (simp add: comp_def case_prod_unfold)
  ultimately have m: "map_of (map (\<lambda>(key, out_key). (out_key, key)) field_table) out_key = Some key"
    by (rule map_of_is_SomeI [rotated])
  from assms have "out_key \<noteq> ''node_type''" "out_key \<noteq> ''depth''"
    by (auto simp: field_table_def)
  with m show ?thesis
    by (simp add: map_of_plan_item split: option.splits)
qed

lemma plan_item_fixed:
  "map_of (plan_item node depth) ''depth'' = Some (JInt depth)"
  "map_of (plan_item node depth) ''node_type'' = Some (dict_get node ''Node Type'')"
  by (simp_all add: map_of_plan_item field_table_def)

text \<open>
  Claim C4.  For every plan node and each optional field of the allow-list, the item
  built for the node has the output field exactly when the source node has the field
  with a value other than \<open>None\<close>, and then with that value: a field absent from the
  source is absent from the item, and no field is ever emitted with a null or default
  value.  The item has no key besides \<open>node_type\<close>, \<open>depth\<close> and the output fields of
  the allow-list.  In particular a node without \<open>Filter\<close> yields no \<open>filter\<close>.
\<close>

theorem optional_fields_only_if_present:
  "(\<forall>(key, out_key) \<in> set
       [(''Relation Name'', ''relation''), (''Index Name'', ''index''),
        (''Actual Rows'', ''actual_rows''), (''Actual Loops'', ''actual_loops''),
        (''Actual Total Time'', ''actual_total_time_ms''),
        (''Plan Rows'', ''plan_rows''), (''Plan Width'', ''plan_width''),
        (''Total Cost'', ''plan_total_cost''),
        (''Filter'', ''filter''), (''Index Cond'', ''index_cond''),
        (''Recheck Cond'', ''recheck_cond''), (''Hash Cond'', ''hash_cond''),
        (''Merge Cond'', ''merge_cond''), (''Join Filter'', ''join_filter''),
        (''Sort Key'', ''sort_key''), (''Group Key'', ''group_key''),
        (''Shared Hit Blocks'', ''shared_hit_blocks''),
        (''Shared Read Blocks'', ''shared_read_blocks''),
        (''Shared Dirtied Blocks'', ''shared_dirtied_blocks''),
        (''Shared Written Blocks'', ''shared_written_blocks''),
        (''Temp Read Blocks'', ''temp_read_blocks''),
        (''Temp Written Blocks'', ''temp_written_blocks'')].
      map_of (plan_item node depth) out_key =
        (case map_of node key of
           None \<Rightarrow> None
         | Some v \<Rightarrow> if v = JNull then None else Some v))
   \<and> set (map fst (plan_item node depth)) \<subseteq>
        {''node_type'', ''depth'', ''relation'', ''index'', ''actual_rows'', ''actual_loops'',
         ''actual_total_time_ms'', ''plan_rows'', ''plan_width'', ''plan_total_cost'',
         ''filter'', ''index_cond'', ''recheck_cond'', ''hash_cond'', ''merge_cond'',
         ''join_filter'', ''sort_key'', ''group_key'', ''shared_hit_blocks'',
         ''shared_read_blocks'', ''shared_dirtied_blocks'', ''shared_written_blocks'',
         ''temp_read_blocks'', ''temp_written_blocks''}
   \<and> (map_of node ''Filter'' = None \<longrightarrow> map_of (plan_item node depth) ''filter'' = None)"
proof (intro conjI impI)
  have "\<forall>(key, out_key) \<in> set field_table.
      map_of (plan_item node depth) out_key =
        (case map_of node key of None \<Rightarrow> None | Some v \<Rightarrow> if v = JNull then None else Some v)"
    using plan_item_field [of _ _ node depth] by (auto simp: copied_def)
  then show "\<forall>(key, out_key) \<in> set
       [(''Relation Name'', ''relation''), (''Index Name'', ''index''),
        (''Actual Rows'', ''actual_rows''), (''Actual Loops'', ''actual_loops''),
        (''Actual Total Time'', ''actual_total_time_ms''),
        (''Plan Rows'', ''plan_rows''), (''Plan Width'', ''plan_width''),
        (''Total Cost'', ''plan_total_cost''),
        (''Filter'', ''filter''), (''Index Cond'', ''index_cond''),
        (''Recheck Cond'', ''recheck_cond''), (''Hash Cond'', ''hash_cond''),
        (''Merge Cond'', ''merge_cond''), (''Join Filter'', ''join_filter''),
        (''Sort Key'', ''sort_key''), (''Group Key'', ''group_key''),
        (''Shared Hit Blocks'', ''shared_hit_blocks''),
        (''Shared Read Blocks'', ''shared_read_blocks''),
        (''Shared Dirtied Blocks'', ''shared_dirtied_blocks''),
        (''Shared Written Blocks'', ''shared_written_blocks''),
        (''Temp Read Blocks'', ''temp_read_blocks''),
        (''Temp Written Blocks'', ''temp_written_blocks'')].
      map_of (plan_item node depth) out_key =
        (case map_of node key of
           None \<Rightarrow> None
         | Some v \<Rightarrow> if v = JNull then None else Some v)"
    unfolding field_table_def .
next
  have "set (map fst (plan_item node depth)) \<subseteq>
      set (map fst [(''node_type'', dict_get node ''Node Type''), (''depth'', JInt depth)])
      \<union> set (map snd field_table)"
    unfolding plan_item_def by (rule keys_foldl_table)
  also have "\<dots> = {''node_type'', ''depth'', ''relation'', ''index'', ''actual_rows'', ''actual_loops'',
         ''actual_total_time_ms'', ''plan_rows'', ''plan_width'', ''plan_total_cost'',
         ''filter'', ''index_cond'', ''recheck_cond'', ''hash_cond'', ''merge_cond'',
         ''join_filter'', ''sort_key'', ''group_key'', ''shared_hit_blocks'',
         ''shared_read_blocks'', ''shared_dirtied_blocks'', ''shared_written_blocks'',
         ''temp_read_blocks'', ''temp_written_blocks''}"
    by (simp add: field_table_def insert_commute)
  finally show "set (map fst (plan_item node depth)) \<subseteq>
        {''node_type'', ''depth'', ''relation'', ''index'', ''actual_rows'', ''actual_loops'',
         ''actual_total_time_ms'', ''plan_rows'', ''plan_width'', ''plan_total_cost'',
         ''filter'', ''index_cond'', ''recheck_cond'', ''hash_cond'', ''merge_cond'',
         ''join_filter'', ''sort_key'', ''group_key'', ''shared_hit_blocks'',
         ''shared_read_blocks'', ''shared_dirtied_blocks'', ''shared_written_blocks'',
         ''temp_read_blocks'', ''temp_written_blocks''}" .
next
  assume "map_of node ''Filter'' = None"
  moreover have "(''Filter'', ''filter'') \<in> set field_table" by (simp add: field_table_def)
  ultimately show "map_of (plan_item node depth) ''filter'' = None"
    by (simp add: plan_item_field copied_def)
qed

theorem optional_fields_only_if_present_witness:
  "(''Relation Name'', ''relation'') \<in> set [(''Relation Name'', ''relation'')]
   \<and> map_of [(''Node Type'', JStr ''Seq Scan''), (''Relation Name'', JStr ''posts''),
             (''Index Name'', JNull), (''Actual Rows'', JInt 5)] ''Filter'' = None
   \<and> plan_item [(''Node Type'', JStr ''Seq Scan''), (''Relation Name'', JStr ''posts''),
                (''Index Name'', JNull), (''Actual Rows'', JInt 5)] 1
       = [(''node_type'', JStr ''Seq Scan''), (''depth'', JInt 1),
          (''relation'', JStr ''posts''), (''actual_rows'', JInt 5)]
   \<and> map_of (plan_item [(''Node Type'', JStr ''Seq Scan''), (''Relation Name'', JStr ''posts''),
                (''Index Name'', JNull), (''Actual Rows'', JInt 5)] 1) ''filter'' = None
   \<and> map_of (plan_item [(''Node Type'', JStr ''Seq Scan''), (''Relation Name'', JStr ''posts''),
                (''Index Name'', JNull), (''Actual Rows'', JInt 5)] 1) ''index'' = None
   \<and> map_of (plan_item [(''Node Type'', JStr ''Seq Scan''), (''Relation Name'', JStr ''posts''),
                (''Index Name'', JNull), (''Actual Rows'', JInt 5)] 1) ''relation''
       = Some (JStr ''posts'')"
  using optional_fields_only_if_present
    [of "[(''Node Type'', JStr ''Seq Scan''), (''Relation Name'', JStr ''posts''),
          (''Index Name'', JNull), (''Actual Rows'', JInt 5)]" 1]
  by (simp add: plan_item_def field_table_def add_if_present_def dict_get_def)

subsection \<open>The walk is the preorder of the plan tree\<close>

lemma plans_iterable_children:
  "plans_iterable node \<Longrightarrow> plan_children node = Inr (child_nodes node)"
  by (subst (asm) plans_iterable.simps) (cases "plan_children node"; simp add: child_nodes_def)

lemma plans_iterable_child:
  "plans_iterable node \<Longrightarrow> list_all plans_iterable (child_nodes node)"
  by (subst (asm) plans_iterable.simps) (cases "plan_children node"; simp add: child_nodes_def)

lemma preorder_unfold:
  "preorder d node = (d, node) # concat (map (preorder (d + 1)) (child_nodes node))"
  by (rule preorder.simps)

lemma extract_preorder:
  "plans_iterable node \<Longrightarrow>
     extract_plan_nodes node depth out =
       Inr (out @ map (\<lambda>(d, n). plan_item n d) (preorder depth node))"
  "list_all plans_iterable cs \<Longrightarrow>
     extract_children cs depth out =
       Inr (out @ map (\<lambda>(d, n). plan_item n d) (concat (map (preorder (depth + 1)) cs)))"
proof (induction node depth out and cs depth out rule: extract_plan_nodes_extract_children.induct)
  case (1 node depth out)
  from "1.prems" have c: "plan_children node = Inr (child_nodes node)"
    by (rule plans_iterable_children)
  from "1.prems" have l: "list_all plans_iterable (child_nodes node)"
    by (rule plans_iterable_child)
  have "extract_plan_nodes node depth out =
      extract_children (child_nodes node) depth (out @ [plan_item node depth])"
    using c by simp
  also have "\<dots> = Inr ((out @ [plan_item node depth])
      @ map (\<lambda>(d, n). plan_item n d) (concat (map (preorder (depth + 1)) (child_nodes node))))"
    using "1.IH" [OF c l] .
  also have "\<dots> = Inr (out @ map (\<lambda>(d, n). plan_item n d)
      ((depth, node) # concat (map (preorder (depth + 1)) (child_nodes node))))"
    by simp
  also have "\<dots> = Inr (out @ map (\<lambda>(d, n). plan_item n d) (preorder depth node))"
    by (simp only: preorder_unfold [symmetric])
  finally show ?case .
next
  case (2 depth out)
  then show ?case by simp
next
  case (3 child children depth out)
  from "3.prems" have c: "plans_iterable child" and cs: "list_all plans_iterable children"
    by simp_all
  have e: "extract_plan_nodes child (depth + 1) out =
      Inr (out @ map (\<lambda>(d, n). plan_item n d) (preorder (depth + 1) child))"
    using "3.IH"(1) [OF c] .
  have "extract_children (child # children) depth out =
      extract_children children depth
        (out @ map (\<lambda>(d, n). plan_item n d) (preorder (depth + 1) child))"
    using e by simp
  also have "\<dots> = Inr ((out @ map (\<lambda>(d, n). plan_item n d) (preorder (depth + 1) child))
      @ map (\<lambda>(d, n). plan_item n d) (concat (map (preorder (depth + 1)) children)))"
    using "3.IH"(2) [OF e cs] .
  finally show ?case by simp
qed

lemma length_preorder: "length (preorder d node) = node_count node"
proof (induction d node rule: preorder.induct)
  case (1 d node)
  have m: "map (\<lambda>c. length (preorder (d + 1) c)) (child_nodes node)
      = map node_count (child_nodes node)"
    using "1.IH" by (intro map_cong refl) simp
  have "length (concat (map (preorder (d + 1)) (child_nodes node)))
      = sum_list (map (\<lambda>c. length (preorder (d + 1) c)) (child_nodes node))"
    by (simp add: length_concat comp_def)
  also have "\<dots> = sum_list (map node_count (child_nodes node))"
    by (simp only: m)
  finally have "length (concat (map (preorder (d + 1)) (child_nodes node)))
      = sum_list (map node_count (child_nodes node))" .
  then have "length ((d, node) # concat (map (preorder (d + 1)) (child_nodes node)))
      = 1 + sum_list (map node_count (child_nodes node))"
    by simp
  then show ?case
    by (simp only: preorder_unfold [symmetric] node_count.simps [symmetric])
qed

lemma child_nodes_list:
  "map_of node ''Plans'' = Some (JArr xs) \<Longrightarrow> child_nodes node = dicts_of xs"
  by (cases xs) (simp_all add: child_nodes_def plan_children_def plans_of_def)

lemma child_nodes_absent: "map_of node ''Plans'' = None \<Longrightarrow> child_nodes node = []"
  by (simp add: child_nodes_def plan_children_def plans_of_def)

lemma depth_preorder_items:
  "map (\<lambda>item. dict_get item ''depth'') (map (\<lambda>(d, n). plan_item n d) xs) = map (\<lambda>(d, n). JInt d) xs"
  by (induction xs) (auto simp: dict_get_def plan_item_fixed)

text \<open>A plan of depth three, with an element of \<open>Plans\<close> that is not a dictionary.\<close>

definition example_top :: dict where
  "example_top =
     [(''Node Type'', JStr ''Sort''), (''Actual Rows'', JInt 2),
      (''Plans'',
         JArr [JObj [(''Node Type'', JStr ''Hash Join''),
                     (''Plans'', JArr [JObj [(''Node Type'', JStr ''Seq Scan''),
                                             (''Relation Name'', JStr ''posts'')]])],
               JNull,
               JObj [(''Node Type'', JStr ''Index Scan'')]])]"

definition example_plan :: dict where
  "example_plan =
     [(''Plan'', JObj example_top), (''Planning Time'', JFloat (1 / 2)),
      (''Execution Time'', JInt 3)]"

text \<open>
  Claim C2.  Let the root object have a dictionary \<open>Plan\<close> whose tree has iterable
  \<open>Plans\<close> fields.  Then distillation returns, and its \<open>plan_nodes\<close> are the items of
  the nodes of the tree in preorder: \<open>preorder\<close> puts a node before the nodes below its
  children, takes the children in the order of the \<open>Plans\<close> list and gives each child
  the depth of its parent plus one.  The list is as long as the tree has nodes, every
  item records the depth of its node, and the first item has depth 0.
\<close>

theorem distill_flattens_in_preorder:
  "(map_of plan ''Plan'' = Some (JObj top_plan) \<and> plans_iterable top_plan \<longrightarrow>
      distill_plan plan =
        Inr [(''planning_time_ms'', dict_get plan ''Planning Time''),
             (''execution_time_ms'', dict_get plan ''Execution Time''),
             (''top_actual_rows'', dict_get top_plan ''Actual Rows''),
             (''plan_nodes'',
                JArr (map JObj (map (\<lambda>(d, n). plan_item n d) (preorder 0 top_plan))))]
      \<and> extract_plan_nodes top_plan 0 [] = Inr (map (\<lambda>(d, n). plan_item n d) (preorder 0 top_plan)))
   \<and> preorder d node = (d, node) # concat (map (preorder (d + 1)) (child_nodes node))
   \<and> node_count node = 1 + sum_list (map node_count (child_nodes node))
   \<and> (map_of node ''Plans'' = Some (JArr xs) \<longrightarrow> child_nodes node = dicts_of xs)
   \<and> (map_of node ''Plans'' = None \<longrightarrow> child_nodes node = [])
   \<and> length (map (\<lambda>(d, n). plan_item n d) (preorder 0 top_plan)) = node_count top_plan
   \<and> map (\<lambda>item. dict_get item ''depth'') (map (\<lambda>(d, n). plan_item n d) (preorder d node))
        = map (\<lambda>(d, n). JInt d) (preorder d node)
   \<and> dict_get (hd (map (\<lambda>(d, n). plan_item n d) (preorder 0 top_plan))) ''depth'' = JInt 0"
proof (intro conjI impI)
  assume a: "map_of plan ''Plan'' = Some (JObj top_plan) \<and> plans_iterable top_plan"
  then have e: "extract_plan_nodes top_plan 0 [] =
      Inr ([] @ map (\<lambda>(d, n). plan_item n d) (preorder 0 top_plan))"
    by (intro extract_preorder(1)) simp
  then show "extract_plan_nodes top_plan 0 [] =
      Inr (map (\<lambda>(d, n). plan_item n d) (preorder 0 top_plan))"
    by simp
  from a have g: "dict_get plan ''Plan'' = JObj top_plan" by (simp add: dict_get_def)
  show "distill_plan plan =
        Inr [(''planning_time_ms'', dict_get plan ''Planning Time''),
             (''execution_time_ms'', dict_get plan ''Execution Time''),
             (''top_actual_rows'', dict_get top_plan ''Actual Rows''),
             (''plan_nodes'',
                JArr (map JObj (map (\<lambda>(d, n). plan_item n d) (preorder 0 top_plan))))]"
    unfolding distill_plan_def summarize_plan_def Let_def g using e by simp
next
  show "preorder d node = (d, node) # concat (map (preorder (d + 1)) (child_nodes node))"
    by (rule preorder.simps)
  show "node_count node = 1 + sum_list (map node_count (child_nodes node))"
    by (rule node_count.simps)
next
  assume "map_of node ''Plans'' = Some (JArr xs)"
  then show "child_nodes node = dicts_of xs" by (rule child_nodes_list)
next
  assume "map_of node ''Plans'' = None"
  then show "child_nodes node = []" by (rule child_nodes_absent)
next
  show "length (map (\<lambda>(d, n). plan_item n d) (preorder 0 top_plan)) = node_count top_plan"
    by (simp add: length_preorder)
  show "map (\<lambda>item. dict_get item ''depth'') (map (\<lambda>(d, n). plan_item n d) (preorder d node))
        = map (\<lambda>(d, n). JInt d) (preorder d node)"
    by (rule depth_preorder_items)
  show "dict_get (hd (map (\<lambda>(d, n). plan_item n d) (preorder 0 top_plan))) ''depth'' = JInt 0"
    by (subst preorder.simps) (simp add: dict_get_def plan_item_fixed)
qed

lemma example_preorder:
  "preorder 0 example_top =
     [(0, example_top),
      (1, [(''Node Type'', JStr ''Hash Join''),
           (''Plans'', JArr [JObj [(''Node Type'', JStr ''Seq Scan''),
                                   (''Relation Name'', JStr ''posts'')]])]),
      (2, [(''Node Type'', JStr ''Seq Scan''), (''Relation Name'', JStr ''posts'')]),
      (1, [(''Node Type'', JStr ''Index Scan'')])]"
  by (simp add: example_top_def preorder.simps child_nodes_def plan_children_def plans_of_def)

lemma example_iterable: "plans_iterable example_top"
  by (simp add: example_top_def plans_iterable.simps plan_children_def plans_of_def)

theorem distill_flattens_in_preorder_witness:
  "map_of example_plan ''Plan'' = Some (JObj example_top) \<and> plans_iterable example_top
   \<and> map_of example_top ''Plans''
       = Some (JArr [JObj [(''Node Type'', JStr ''Hash Join''),
                           (''Plans'', JArr [JObj [(''Node Type'', JStr ''Seq Scan''),
                                                   (''Relation Name'', JStr ''posts'')]])],
                     JNull,
                     JObj [(''Node Type'', JStr ''Index Scan'')]])
   \<and> map_of [(''Node Type'', JStr ''Index Scan'')] ''Plans'' = None
   \<and> distill_plan example_plan =
       Inr [(''planning_time_ms'', JFloat (1 / 2)),
            (''execution_time_ms'', JInt 3),
            (''top_actual_rows'', JInt 2),
            (''plan_nodes'',
               JArr [JObj [(''node_type'', JStr ''Sort''), (''depth'', JInt 0),
                           (''actual_rows'', JInt 2)],
                     JObj [(''node_type'', JStr ''Hash Join''), (''depth'', JInt 1)],
                     JObj [(''node_type'', JStr ''Seq Scan''), (''depth'', JInt 2),
                           (''relation'', JStr ''posts'')],
                     JObj [(''node_type'', JStr ''Index Scan''), (''depth'', JInt 1)]])]
   \<and> node_count example_top = 4"
  using distill_flattens_in_preorder [of example_plan example_top 0 example_top
      "[JObj [(''Node Type'', JStr ''Hash Join''),
              (''Plans'', JArr [JObj [(''Node Type'', JStr ''Seq Scan''),
                                      (''Relation Name'', JStr ''posts'')]])],
        JNull,
        JObj [(''Node Type'', JStr ''Index Scan'')]]"]
    example_iterable
  by (simp add: example_preorder)
    (simp add: example_plan_def example_top_def dict_get_def plan_item_def field_table_def
      add_if_present_def)

subsection \<open>The distilled plan\<close>

text \<open>\<open>isinstance(v, dict)\<close>\<close>

definition is_dict :: "json \<Rightarrow> bool" where
  "is_dict v = (case v of JObj kvs \<Rightarrow> True | _ \<Rightarrow> False)"

lemma distill_no_plan:
  assumes "\<not> is_dict (dict_get plan ''Plan'')"
  shows "distill_plan plan =
      Inr [(''planning_time_ms'', dict_get plan ''Planning Time''),
           (''execution_time_ms'', dict_get plan ''Execution Time''),
           (''top_actual_rows'', JNull),
           (''plan_nodes'', JArr [])]"
  using assms
  by (cases "dict_get plan ''Plan''")
    (simp_all add: distill_plan_def summarize_plan_def is_dict_def Let_def)

lemma distill_shape:
  assumes "distill_plan plan = Inr d"
  shows "\<exists>nodes. d =
      [(''planning_time_ms'', dict_get plan ''Planning Time''),
       (''execution_time_ms'', dict_get plan ''Execution Time''),
       (''top_actual_rows'',
          (case dict_get plan ''Plan'' of JObj tp \<Rightarrow> dict_get tp ''Actual Rows'' | _ \<Rightarrow> JNull)),
       (''plan_nodes'', JArr (map JObj nodes))]"
proof (cases "is_dict (dict_get plan ''Plan'')")
  case False
  from distill_no_plan [OF False] assms False show ?thesis
    by (cases "dict_get plan ''Plan''") (auto simp: is_dict_def)
next
  case True
  then obtain tp where tp: "dict_get plan ''Plan'' = JObj tp"
    by (cases "dict_get plan ''Plan''") (simp_all add: is_dict_def)
  show ?thesis
  proof (cases "extract_plan_nodes tp 0 []")
    case (Inl e)
    with assms tp show ?thesis
      by (simp add: distill_plan_def summarize_plan_def Let_def)
  next
    case (Inr nodes)
    with assms tp show ?thesis
      by (auto simp: distill_plan_def summarize_plan_def Let_def)
  qed
qed

text \<open>
  Claim C10.  Whenever distillation returns, the result has exactly the four keys
  \<open>planning_time_ms\<close>, \<open>execution_time_ms\<close>, \<open>top_actual_rows\<close> and \<open>plan_nodes\<close>, in
  this order; the first three hold what \<open>get\<close> returns, so they are present with the
  value \<open>None\<close> when \<open>Planning Time\<close>, \<open>Execution Time\<close> or the root's \<open>Actual Rows\<close> is
  absent, and \<open>plan_nodes\<close> is a list.  When the source has no dictionary under
  \<open>Plan\<close>, distillation returns with \<open>top_actual_rows\<close> \<open>None\<close> and \<open>plan_nodes\<close> empty;
  when it has one with iterable \<open>Plans\<close> fields, distillation returns as well.
\<close>

theorem distilled_plan_has_four_keys:
  "(distill_plan plan = Inr d \<longrightarrow>
      map fst d = [''planning_time_ms'', ''execution_time_ms'', ''top_actual_rows'', ''plan_nodes'']
      \<and> map_of d ''planning_time_ms'' = Some (dict_get plan ''Planning Time'')
      \<and> map_of d ''execution_time_ms'' = Some (dict_get plan ''Execution Time'')
      \<and> map_of d ''top_actual_rows'' =
          Some (case dict_get plan ''Plan'' of JObj tp \<Rightarrow> dict_get tp ''Actual Rows'' | _ \<Rightarrow> JNull)
      \<and> (\<exists>nodes. map_of d ''plan_nodes'' = Some (JArr (map JObj nodes))))
   \<and> (map_of plan key = None \<longrightarrow> dict_get plan key = JNull)
   \<and> (\<not> is_dict (dict_get plan ''Plan'') \<longrightarrow>
        distill_plan plan =
          Inr [(''planning_time_ms'', dict_get plan ''Planning Time''),
               (''execution_time_ms'', dict_get plan ''Execution Time''),
               (''top_actual_rows'', JNull),
               (''plan_nodes'', JArr [])])
   \<and> (dict_get plan ''Plan'' = JObj top_plan \<and> plans_iterable top_plan \<longrightarrow>
        (\<exists>r. distill_plan plan = Inr r))"
proof (intro conjI impI)
  assume a: "distill_plan plan = Inr d"
  from distill_shape [OF a] obtain nodes where d: "d =
      [(''planning_time_ms'', dict_get plan ''Planning Time''),
       (''execution_time_ms'', dict_get plan ''Execution Time''),
       (''top_actual_rows'',
          (case dict_get plan ''Plan'' of JObj tp \<Rightarrow> dict_get tp ''Actual Rows'' | _ \<Rightarrow> JNull)),
       (''plan_nodes'', JArr (map JObj nodes))]" ..
  show "map fst d = [''planning_time_ms'', ''execution_time_ms'', ''top_actual_rows'', ''plan_nodes'']"
    by (simp add: d)
  show "map_of d ''planning_time_ms'' = Some (dict_get plan ''Planning Time'')"
    by (simp add: d)
  show "map_of d ''execution_time_ms'' = Some (dict_get plan ''Execution Time'')"
    by (simp add: d)
  show "map_of d ''top_actual_rows'' =
      Some (case dict_get plan ''Plan'' of JObj tp \<Rightarrow> dict_get tp ''Actual Rows'' | _ \<Rightarrow> JNull)"
    by (simp add: d)
  show "\<exists>nodes. map_of d ''plan_nodes'' = Some (JArr (map JObj nodes))"
    by (simp add: d) blast
next
  assume "map_of plan key = None"
  then show "dict_get plan key = JNull" by (simp add: dict_get_def)
next
  assume "\<not> is_dict (dict_get plan ''Plan'')"
  then show "distill_plan plan =
      Inr [(''planning_time_ms'', dict_get plan ''Planning Time''),
           (''execution_time_ms'', dict_get plan ''Execution Time''),
           (''top_actual_rows'', JNull),
           (''plan_nodes'', JArr [])]"
    by (rule distill_no_plan)
next
  assume a: "dict_get plan ''Plan'' = JObj top_plan \<and> plans_iterable top_plan"
  then have "extract_plan_nodes top_plan 0 [] =
      Inr ([] @ map (\<lambda>(d, n). plan_item n d) (preorder 0 top_plan))"
    by (intro extract_preorder(1)) simp
  with a show "\<exists>r. distill_plan plan = Inr r"
    by (simp add: distill_plan_def summarize_plan_def Let_def)
qed

theorem distilled_plan_has_four_keys_witness:
  "distill_plan [(''Execution Time'', JInt 3), (''Plan'', JObj [(''Node Type'', JStr ''Result'')])]
     = Inr [(''planning_time_ms'', JNull), (''execution_time_ms'', JInt 3),
            (''top_actual_rows'', JNull),
            (''plan_nodes'', JArr [JObj [(''node_type'', JStr ''Result''), (''depth'', JInt 0)]])]
   \<and> map_of [(''Execution Time'', JInt 3), (''Plan'', JObj [(''Node Type'', JStr ''Result'')])]
        ''Planning Time'' = None
   \<and> \<not> is_dict (dict_get [(''Planning Time'', JInt 1), (''Plan'', JArr [])] ''Plan'')
   \<and> distill_plan [(''Planning Time'', JInt 1), (''Plan'', JArr [])]
     = Inr [(''planning_time_ms'', JInt 1), (''execution_time_ms'', JNull),
            (''top_actual_rows'', JNull), (''plan_nodes'', JArr [])]
   \<and> plans_iterable [(''Node Type'', JStr ''Result'')]"
  using distilled_plan_has_four_keys
    [of "[(''Execution Time'', JInt 3), (''Plan'', JObj [(''Node Type'', JStr ''Result'')])]"
      "[(''planning_time_ms'', JNull), (''execution_time_ms'', JInt 3),
        (''top_actual_rows'', JNull),
        (''plan_nodes'', JArr [JObj [(''node_type'', JStr ''Result''), (''depth'', JInt 0)]])]"
      "''Planning Time''" "[(''Node Type'', JStr ''Result'')]"]
    distilled_plan_has_four_keys
    [of "[(''Planning Time'', JInt 1), (''Plan'', JArr [])]" "[]" "''Execution Time''" "[]"]
  by (simp add: distill_plan_def summarize_plan_def dict_get_def is_dict_def plan_children_def
      plans_of_def plan_item_def field_table_def add_if_present_def plans_iterable.simps)

section \<open>The runner: \<open>_run_queries\<close> and \<open>main\<close>\<close>

subsection \<open>The database, the file system and the results\<close>

text \<open>
  The database is outside the program.  Its answer to \<open>_run_explain\<close> is a function of the
  statements submitted before and of the statement submitted now: \<open>cursor.execute\<close>
  raises, or \<open>fetchone\<close> returns no row, or the row holds the raw plan.  The reply also
  carries the wall-clock time that the client measures around the call.
\<close>

datatype db_reply = DbError | NoRow | Row dict rat

type_synonym database = "pystr list \<Rightarrow> pystr \<Rightarrow> db_reply"

datatype run_error =
    ExecutionError
  | RuntimeError
  | DistillError py_error

record query_result =
  query_index :: nat
  query :: pystr
  plan_file :: string
  planning_time_ms :: json
  execution_time_ms :: json
  client_time_ms :: rat
  top_actual_rows :: json

text \<open>
  A file holds what was written to it: a distilled plan (\<open>_write_json\<close>) or the summary
  lines (\<open>_write_summary\<close>, one line per result).  The world is the file system, a map
  from paths to files, and the list of the statements submitted to the database.
\<close>

datatype file_content = PlanFile dict | SummaryFile "query_result list"

record world =
  files :: "string \<rightharpoonup> file_content"
  executed :: "pystr list"

subsection \<open>File names\<close>

text \<open>The decimal digits of a number, as \<open>str\<close> writes them.\<close>

definition digit_char :: "nat \<Rightarrow> char" where
  "digit_char d = ''0123456789'' ! d"

function dec :: "nat \<Rightarrow> string" where
  "dec n = (if n < 10 then [digit_char n] else dec (n div 10) @ [digit_char (n mod 10)])"
  by pat_completeness auto
termination
  by (relation "measure (\<lambda>n. n)") auto

declare dec.simps [simp del]

text \<open>The format \<open>03d\<close>: at least three digits, padded with zeros on the left.\<close>

definition fmt_03d :: "nat \<Rightarrow> string" where
  "fmt_03d n = replicate (3 - length (dec n)) (CHR ''0'') @ dec n"

text \<open>\<open>f"query_{idx:03d}_plan.json"\<close>\<close>

definition plan_filename :: "nat \<Rightarrow> string" where
  "plan_filename idx = ''query_'' @ fmt_03d idx @ ''_plan.json''"

text \<open>\<open>os.path.join(a, b)\<close> on POSIX, for two components.\<close>

definition path_join :: "string \<Rightarrow> string \<Rightarrow> string" where
  "path_join a b =
     (if b \<noteq> [] \<and> hd b = CHR ''/'' then b
      else if a = [] \<or> last a = CHR ''/'' then a @ b
      else a @ ''/'' @ b)"

subsection \<open>The loop of \<open>_run_queries\<close>\<close>

text \<open>\<open>_iter_queries\<close>, given the contents of the SQL file.\<close>

definition iter_queries :: "pystr \<Rightarrow> pystr list" where
  "iter_queries contents = filter (\<lambda>s. py_strip s \<noteq> []) (split_sql_statements contents)"

text \<open>
  The body of the \<open>for\<close> loop for the statement \<open>q\<close> with index \<open>idx\<close>, and the rest of the
  loop.  An exception ends the loop: the world is as the exception found it and the
  results gathered so far are lost with the local variable \<open>results\<close>.
\<close>

fun run_loop ::
  "database \<Rightarrow> string \<Rightarrow> nat \<Rightarrow> pystr list \<Rightarrow> world \<Rightarrow> query_result list
     \<Rightarrow> world \<times> (run_error + query_result list)" where
  "run_loop db out_dir idx [] w results = (w, Inr results)"
| "run_loop db out_dir idx (q # qs) w results =
     (let w1 = w\<lparr>executed := executed w @ [q]\<rparr> in
      case db (executed w) q of
        DbError \<Rightarrow> (w1, Inl ExecutionError)
      | NoRow \<Rightarrow> (w1, Inl RuntimeError)
      | Row raw_plan elapsed_ms \<Rightarrow>
          (case distill_plan raw_plan of
             Inl e \<Rightarrow> (w1, Inl (DistillError e))
           | Inr distilled_plan \<Rightarrow>
               let plan_path = path_join out_dir (plan_filename idx);
                   w2 = w1\<lparr>files := (files w1)(plan_path \<mapsto> PlanFile distilled_plan)\<rparr>;
                   result = \<lparr>query_index = idx, query = q, plan_file = plan_filename idx,
                     planning_time_ms = dict_get distilled_plan ''planning_time_ms'',
                     execution_time_ms = dict_get distilled_plan ''execution_time_ms'',
                     client_time_ms = elapsed_ms,
                     top_actual_rows = dict_get distilled_plan ''top_actual_rows''\<rparr>
               in run_loop db out_dir (idx + 1) qs w2 (results @ [result])))"

text \<open>\<open>_run_queries\<close>: \<open>enumerate(..., start=1)\<close> over the statements of the file.\<close>

definition run_queries ::
  "database \<Rightarrow> pystr \<Rightarrow> string \<Rightarrow> world \<Rightarrow> world \<times> (run_error + query_result list)" where
  "run_queries db contents out_dir w = run_loop db out_dir 1 (iter_queries contents) w []"

text \<open>
  \<open>main\<close>: the run directory is \<open>out_dir/run_id\<close>; the summary is written after
  \<open>_run_queries\<close> has returned.  The result is the exit status 0, or the exception.
\<close>

definition summary_path :: "string \<Rightarrow> string \<Rightarrow> string" where
  "summary_path out_dir run_id = path_join (path_join out_dir run_id) (run_id @ ''_summary.jsonl'')"

definition main_run ::
  "database \<Rightarrow> pystr \<Rightarrow> string \<Rightarrow> string \<Rightarrow> world \<Rightarrow> world \<times> (run_error + nat)" where
  "main_run db contents out_dir run_id w =
     (case run_queries db contents (path_join out_dir run_id) w of
        (w', Inl e) \<Rightarrow> (w', Inl e)
      | (w', Inr results) \<Rightarrow>
          (w'\<lparr>files := (files w')(summary_path out_dir run_id \<mapsto> SummaryFile results)\<rparr>, Inr 0))"

lemma dec_small: "n < 10 \<Longrightarrow> dec n = [digit_char n]"
  by (subst dec.simps) simp

lemma dec_big: "\<not> n < 10 \<Longrightarrow> dec n = dec (n div 10) @ [digit_char (n mod 10)]"
  by (subst dec.simps) simp

lemma digit_chars:
  "digit_char 0 = CHR ''0''" "digit_char 1 = CHR ''1''" "digit_char 2 = CHR ''2''"
  "digit_char 3 = CHR ''3''" "digit_char 4 = CHR ''4''" "digit_char 5 = CHR ''5''"
  "digit_char 6 = CHR ''6''" "digit_char 7 = CHR ''7''" "digit_char 8 = CHR ''8''"
  "digit_char 9 = CHR ''9''"
  by (simp_all add: digit_char_def)

lemma plan_filename_examples:
  "plan_filename 1 = ''query_001_plan.json''"
  "plan_filename 12 = ''query_012_plan.json''"
  "plan_filename 345 = ''query_345_plan.json''"
  "plan_filename 1000 = ''query_1000_plan.json''"
  by (simp_all add: plan_filename_def fmt_03d_def dec_small dec_big digit_char_def
      numeral_2_eq_2)

subsection \<open>Distinct indices give distinct file names\<close>

text \<open>Reading a decimal numeral back.\<close>

definition undec :: "string \<Rightarrow> nat" where
  "undec s = foldl (\<lambda>a c. 10 * a + (of_char c - 48)) 0 s"

lemma of_char_digit: "d < 10 \<Longrightarrow> of_char (digit_char d) = (48 + d :: nat)"
proof -
  assume "d < 10"
  then consider "d = 0" | "d = 1" | "d = 2" | "d = 3" | "d = 4" | "d = 5" | "d = 6" | "d = 7"
    | "d = 8" | "d = 9"
    by atomize_elim arith
  then show ?thesis
    by cases (simp_all add: digit_char_def)
qed

lemma undec_snoc: "undec (s @ [c]) = 10 * undec s + (of_char c - 48)"
  by (simp add: undec_def)

lemma undec_dec: "undec (dec n) = n"
proof (induction n rule: dec.induct)
  case (1 n)
  show ?case
  proof (cases "n < 10")
    case True
    then show ?thesis by (simp add: dec_small undec_def of_char_digit)
  next
    case False
    have "n mod 10 < 10" by simp
    with "1.IH" [OF False] False show ?thesis
      by (simp add: dec_big undec_snoc of_char_digit)
  qed
qed

lemma foldl_zeros:
  "foldl (\<lambda>a c. 10 * a + (of_char c - 48)) (0::nat) (replicate k (CHR ''0'')) = 0"
  by (induction k) simp_all

lemma undec_fmt: "undec (fmt_03d n) = n"
  using undec_dec [of n] by (simp add: fmt_03d_def undec_def foldl_zeros)

lemma plan_filename_inj: "plan_filename i = plan_filename j \<Longrightarrow> i = j"
proof -
  assume "plan_filename i = plan_filename j"
  then have "fmt_03d i = fmt_03d j" by (simp add: plan_filename_def)
  then have "undec (fmt_03d i) = undec (fmt_03d j)" by simp
  then show "i = j" by (simp add: undec_fmt)
qed

lemma path_join_plan:
  "path_join out_dir (plan_filename i) =
     (if out_dir = [] \<or> last out_dir = CHR ''/'' then out_dir else out_dir @ ''/'') @ plan_filename i"
  by (simp add: path_join_def plan_filename_def)

lemma plan_path_inj:
  "path_join out_dir (plan_filename i) = path_join out_dir (plan_filename j) \<Longrightarrow> i = j"
  by (simp add: path_join_plan plan_filename_inj)

subsection \<open>The loop, statement by statement\<close>

text \<open>The result record that the loop builds for a statement.\<close>

definition result_of :: "nat \<Rightarrow> pystr \<Rightarrow> dict \<Rightarrow> rat \<Rightarrow> query_result" where
  "result_of idx q distilled_plan elapsed_ms =
     \<lparr>query_index = idx, query = q, plan_file = plan_filename idx,
      planning_time_ms = dict_get distilled_plan ''planning_time_ms'',
      execution_time_ms = dict_get distilled_plan ''execution_time_ms'',
      client_time_ms = elapsed_ms,
      top_actual_rows = dict_get distilled_plan ''top_actual_rows''\<rparr>"

lemma run_loop_ok:
  assumes "db (executed w) q = Row raw el" "distill_plan raw = Inr d"
  shows "run_loop db out_dir idx (q # qs) w rs =
     run_loop db out_dir (idx + 1) qs
       (w\<lparr>executed := executed w @ [q],
          files := (files w)(path_join out_dir (plan_filename idx) \<mapsto> PlanFile d)\<rparr>)
       (rs @ [result_of idx q d el])"
  using assms by (simp add: Let_def result_of_def)

lemma run_loop_Inr_head:
  assumes "run_loop db out_dir idx (q # qs) w rs = (w', Inr results)"
  obtains raw el d where "db (executed w) q = Row raw el" "distill_plan raw = Inr d"
proof (cases "db (executed w) q")
  case DbError
  with assms show ?thesis by (simp add: Let_def)
next
  case NoRow
  with assms show ?thesis by (simp add: Let_def)
next
  case (Row raw el)
  show ?thesis
  proof (cases "distill_plan raw")
    case (Inl e)
    with assms Row show ?thesis by (simp add: Let_def)
  next
    case (Inr d)
    with Row that show ?thesis by blast
  qed
qed

lemma run_loop_frame:
  "run_loop db out_dir idx qs w rs = (w', r) \<Longrightarrow>
   (\<And>i. idx \<le> i \<Longrightarrow> i < idx + length qs \<Longrightarrow> p \<noteq> path_join out_dir (plan_filename i)) \<Longrightarrow>
   files w' p = files w p"
proof (induction qs arbitrary: idx w rs)
  case Nil
  then show ?case by simp
next
  case (Cons q qs)
  show ?case
  proof (cases "db (executed w) q")
    case DbError
    with Cons.prems(1) show ?thesis by (auto simp: Let_def)
  next
    case NoRow
    with Cons.prems(1) show ?thesis by (auto simp: Let_def)
  next
    case (Row raw el)
    show ?thesis
    proof (cases "distill_plan raw")
      case (Inl e)
      with Cons.prems(1) Row show ?thesis by (auto simp: Let_def)
    next
      case (Inr d)
      let ?w2 = "w\<lparr>executed := executed w @ [q],
          files := (files w)(path_join out_dir (plan_filename idx) \<mapsto> PlanFile d)\<rparr>"
      from Cons.prems(1) Row Inr have r: "run_loop db out_dir (idx + 1) qs ?w2
          (rs @ [result_of idx q d el]) = (w', r)"
        by (simp add: Let_def result_of_def)
      have "files w' p = files ?w2 p"
      proof (rule Cons.IH [OF r])
        fix i assume "idx + 1 \<le> i" "i < idx + 1 + length qs"
        then show "p \<noteq> path_join out_dir (plan_filename i)"
          using Cons.prems(2) [of i] by simp
      qed
      moreover have "p \<noteq> path_join out_dir (plan_filename idx)"
        using Cons.prems(2) [of idx] by simp
      ultimately show ?thesis by simp
    qed
  qed
qed

lemma run_loop_results:
  "run_loop db out_dir idx qs w rs = (w', Inr results) \<Longrightarrow>
     take (length rs) results = rs \<and> length results = length rs + length qs
     \<and> executed w' = executed w @ qs"
proof (induction qs arbitrary: idx w rs)
  case Nil
  then show ?case by simp
next
  case (Cons q qs)
  from Cons.prems obtain raw el d where
    row: "db (executed w) q = Row raw el" and dist: "distill_plan raw = Inr d"
    by (rule run_loop_Inr_head)
  let ?w2 = "w\<lparr>executed := executed w @ [q],
      files := (files w)(path_join out_dir (plan_filename idx) \<mapsto> PlanFile d)\<rparr>"
  let ?rs2 = "rs @ [result_of idx q d el]"
  from Cons.prems row dist have r:
    "run_loop db out_dir (idx + 1) qs ?w2 ?rs2 = (w', Inr results)"
    by (simp add: Let_def result_of_def)
  from Cons.IH [OF r] have t: "take (length ?rs2) results = ?rs2"
    and l: "length results = length ?rs2 + length qs"
    and e: "executed w' = executed ?w2 @ qs"
    by simp_all
  from t have "take (length rs) (take (length ?rs2) results) = take (length rs) ?rs2"
    by simp
  then have "take (length rs) results = rs" by (simp add: min_def)
  with l e show ?case by simp
qed

lemma run_loop_nth:
  "run_loop db out_dir idx qs w rs = (w', Inr results) \<Longrightarrow> i < length qs \<Longrightarrow>
     \<exists>raw el d.
        db (executed w @ take i qs) (qs ! i) = Row raw el \<and> distill_plan raw = Inr d
      \<and> files w' (path_join out_dir (plan_filename (idx + i))) = Some (PlanFile d)
      \<and> results ! (length rs + i) = result_of (idx + i) (qs ! i) d el"
proof (induction qs arbitrary: idx w rs i)
  case Nil
  then show ?case by simp
next
  case (Cons q qs)
  from Cons.prems(1) obtain raw el d where
    row: "db (executed w) q = Row raw el" and dist: "distill_plan raw = Inr d"
    by (rule run_loop_Inr_head)
  let ?w2 = "w\<lparr>executed := executed w @ [q],
      files := (files w)(path_join out_dir (plan_filename idx) \<mapsto> PlanFile d)\<rparr>"
  let ?rs2 = "rs @ [result_of idx q d el]"
  from Cons.prems(1) row dist have r:
    "run_loop db out_dir (idx + 1) qs ?w2 ?rs2 = (w', Inr results)"
    by (simp add: Let_def result_of_def)
  show ?case
  proof (cases i)
    case 0
    have "files w' (path_join out_dir (plan_filename idx))
        = files ?w2 (path_join out_dir (plan_filename idx))"
    proof (rule run_loop_frame [OF r])
      fix j assume "idx + 1 \<le> j"
      then have "j \<noteq> idx" by simp
      then show "path_join out_dir (plan_filename idx) \<noteq> path_join out_dir (plan_filename j)"
        using plan_path_inj [of out_dir idx j] by blast
    qed
    then have f: "files w' (path_join out_dir (plan_filename idx)) = Some (PlanFile d)"
      by simp
    from run_loop_results [OF r] have "take (length ?rs2) results = ?rs2" by simp
    then have "results ! length rs = ?rs2 ! length rs"
      by (metis length_append_singleton lessI nth_take)
    then have "results ! length rs = result_of idx q d el" by simp
    with 0 row dist f show ?thesis by simp
  next
    case (Suc j)
    with Cons.prems(2) have j: "j < length qs" by simp
    from Cons.IH [OF r j] obtain raw' el' d' where
      "db (executed ?w2 @ take j qs) (qs ! j) = Row raw' el'" "distill_plan raw' = Inr d'"
      "files w' (path_join out_dir (plan_filename (idx + 1 + j))) = Some (PlanFile d')"
      "results ! (length ?rs2 + j) = result_of (idx + 1 + j) (qs ! j) d' el'"
      by blast
    with Suc show ?thesis by simp
  qed
qed

lemma run_loop_total:
  "(\<And>i. i < length qs \<Longrightarrow>
      \<exists>raw el d. db (executed w @ take i qs) (qs ! i) = Row raw el \<and> distill_plan raw = Inr d) \<Longrightarrow>
   \<exists>w' results. run_loop db out_dir idx qs w rs = (w', Inr results)"
proof (induction qs arbitrary: idx w rs)
  case Nil
  then show ?case by simp
next
  case (Cons q qs)
  from Cons.prems [of 0] obtain raw el d where
    row: "db (executed w) q = Row raw el" and dist: "distill_plan raw = Inr d"
    by auto
  let ?w2 = "w\<lparr>executed := executed w @ [q],
      files := (files w)(path_join out_dir (plan_filename idx) \<mapsto> PlanFile d)\<rparr>"
  have "\<exists>w' results. run_loop db out_dir (idx + 1) qs ?w2 (rs @ [result_of idx q d el])
      = (w', Inr results)"
  proof (rule Cons.IH)
    fix i assume "i < length qs"
    then show "\<exists>raw el d. db (executed ?w2 @ take i qs) (qs ! i) = Row raw el
        \<and> distill_plan raw = Inr d"
      using Cons.prems [of "Suc i"] by simp
  qed
  with row dist show ?case by (simp add: Let_def result_of_def)
qed

lemma run_loop_append:
  "run_loop db out_dir idx (qs1 @ qs2) w rs =
     (case run_loop db out_dir idx qs1 w rs of
        (w1, Inl e) \<Rightarrow> (w1, Inl e)
      | (w1, Inr rs1) \<Rightarrow> run_loop db out_dir (idx + length qs1) qs2 w1 rs1)"
proof (induction qs1 arbitrary: idx w rs)
  case Nil
  then show ?case by simp
next
  case (Cons q qs1)
  show ?case
  proof (cases "db (executed w) q")
    case DbError
    then show ?thesis by (simp add: Let_def)
  next
    case NoRow
    then show ?thesis by (simp add: Let_def)
  next
    case (Row raw el)
    show ?thesis
    proof (cases "distill_plan raw")
      case (Inl e)
      with Row show ?thesis by (simp add: Let_def)
    next
      case (Inr d)
      with Row Cons.IH show ?thesis by (simp add: Let_def split: prod.split sum.split)
    qed
  qed
qed

end
